theory Spec2Isabelle
  imports Complex_Main "HOL-Library.Log_Nat"
begin

section \<open>Characters\<close>

text \<open>
  The program classifies bytes with the C library's \<open>isalpha\<close>, \<open>isdigit\<close> and
  \<open>tolower\<close> and never calls \<open>setlocale\<close>, so the "C" locale is in force: the
  letters are the 26 upper-case and the 26 lower-case ASCII letters, the digits are
  \<open>0\<close> to \<open>9\<close>, and \<open>tolower\<close> moves an upper-case letter 32 code points up and
  leaves every other byte alone. A \<open>char\<close> is one byte, as in \<open>std::string\<close>. A
  byte above 127 is no letter and no digit; where \<open>char\<close> is signed the program
  passes it as a negative \<open>int\<close>, for which the common C libraries answer 0.
\<close>

definition isupper :: "char \<Rightarrow> bool" where
  "isupper c = (65 \<le> (of_char c :: nat) \<and> (of_char c :: nat) \<le> 90)"

definition islower :: "char \<Rightarrow> bool" where
  "islower c = (97 \<le> (of_char c :: nat) \<and> (of_char c :: nat) \<le> 122)"

definition isalpha :: "char \<Rightarrow> bool" where
  "isalpha c = (isupper c \<or> islower c)"

definition isdigit :: "char \<Rightarrow> bool" where
  "isdigit c = (48 \<le> (of_char c :: nat) \<and> (of_char c :: nat) \<le> 57)"

definition tolower :: "char \<Rightarrow> char" where
  "tolower c = (if isupper c then char_of ((of_char c :: nat) + 32) else c)"

section \<open>Counting letters (lines 84 to 94)\<close>

text \<open>
  \<open>hist\<close> is a \<open>std::unordered_map<char, size_t>\<close>: a partial map whose
  \<open>operator[]\<close> reads an absent key as a fresh 0. \<open>peak\<close> is a \<open>size_t\<close>; a count
  is bounded by the length of the text, so the counters are naturals.
\<close>

type_synonym histogram = "char \<rightharpoonup> nat"

definition bin :: "histogram \<Rightarrow> char \<Rightarrow> nat" where
  "bin hist c = (case hist c of None \<Rightarrow> 0 | Some n \<Rightarrow> n)"

text \<open>The body of the counting loop, on the pair of \<open>hist\<close> and \<open>peak\<close>.\<close>

definition count_char :: "char \<Rightarrow> histogram \<times> nat \<Rightarrow> histogram \<times> nat" where
  "count_char c s =
     (case s of (hist, peak) \<Rightarrow>
        if isalpha c
        then (let b = bin hist (tolower c) + 1 in (hist(tolower c \<mapsto> b), max b peak))
        else (hist, peak))"

fun count_loop :: "string \<Rightarrow> histogram \<times> nat \<Rightarrow> histogram \<times> nat" where
  "count_loop [] s = s"
| "count_loop (c # cs) s = count_loop cs (count_char c s)"

definition count_letters :: "string \<Rightarrow> histogram \<times> nat" where
  "count_letters input = count_loop input (Map.empty, 0)"

text \<open>The range \<open>alphabet\<close> of line 86: \<open>'a' + i\<close> for \<open>i\<close> from 0 to 25.\<close>

definition alphabet :: "char list" where
  "alphabet = map (\<lambda>i. char_of (97 + i)) [0..<26]"

text \<open>
  The letters as the specification lists them, for stating what the counter does.
  \<open>lower_case\<close> is the value of \<open>alphabet\<close> (lemma \<open>alphabet_eq\<close>).
\<close>

definition upper_case :: string where
  "upper_case = ''ABCDEFGHIJKLMNOPQRSTUVWXYZ''"

definition lower_case :: string where
  "lower_case = ''abcdefghijklmnopqrstuvwxyz''"

section \<open>Double arithmetic\<close>

text \<open>
  A finite \<open>double\<close> is modelled by the real number it denotes. An IEEE 754 binary64
  operation returns the exact result rounded to the nearest number with a significand
  of 53 bits, a tie going to the even significand; \<open>rnd\<close> is that rounding. The
  exponent range is not modelled: the doubles of this program are converted
  \<open>size_t\<close> values, their quotients, products, sums and logarithms, which are 0 or
  lie between \<open>2 ^ -64\<close> and \<open>2 ^ 66\<close>, far inside the normal range.
\<close>

text \<open>The nearest integer, ties to even.\<close>

definition rne :: "real \<Rightarrow> int" where
  "rne m = (let f = \<lfloor>m\<rfloor>; d = m - of_int f in
     if d < 1 / 2 then f else if 1 / 2 < d then f + 1 else if even f then f else f + 1)"

text \<open>The binary exponent of a positive number: the \<open>e\<close> with \<open>2 ^ e \<le> x < 2 ^ (e + 1)\<close>.\<close>

definition ilog2 :: "real \<Rightarrow> int" where
  "ilog2 x = (if 1 \<le> x then bitlen \<lfloor>x\<rfloor> - 1 else - bitlen (\<lceil>1 / x\<rceil> - 1))"

definition rnd :: "real \<Rightarrow> real" where
  "rnd x = (if x = 0 then 0 else
     let e = ilog2 \<bar>x\<bar> - 52 in sgn x * of_int (rne (\<bar>x\<bar> * 2 powi (- e))) * 2 powi e)"

text \<open>The conversion of a \<open>size_t\<close> to \<open>double\<close>, explicit or implicit.\<close>

definition of_size_t :: "nat \<Rightarrow> real" where
  "of_size_t n = rnd (real n)"

definition fdiv :: "real \<Rightarrow> real \<Rightarrow> real" where
  "fdiv x y = rnd (x / y)"

definition fmul :: "real \<Rightarrow> real \<Rightarrow> real" where
  "fmul x y = rnd (x * y)"

definition fadd :: "real \<Rightarrow> real \<Rightarrow> real" where
  "fadd x y = rnd (x + y)"

text \<open>
  The one value outside the finite doubles that the program can compute is the
  result of \<open>log10\<close> at 0.
\<close>

datatype fp = MinusInfinity | Finite real

text \<open>
  What ends a run other than a \<open>return\<close>: undefined behaviour of the language (a
  conversion of a double outside the range of \<open>size_t\<close>, a remainder by zero, an
  index past the end of \<open>args\<close>), and the \<open>std::length_error\<close> that
  \<open>std::string::insert\<close> throws, which nothing catches.
\<close>

datatype fault = Undefined_behaviour | Length_error

text \<open>
  The C library's \<open>log10\<close>: at 0 it has a pole and returns minus infinity. For a
  positive argument it returns a double, taken here to be the logarithm rounded to
  the nearest double; so \<open>log10\<close> of 999999999999999 is the double 15.
\<close>

definition log10 :: "real \<Rightarrow> fp" where
  "log10 x = (if x = 0 then MinusInfinity else Finite (rnd (log 10 x)))"

fun floor_fp :: "fp \<Rightarrow> fp" where
  "floor_fp MinusInfinity = MinusInfinity"
| "floor_fp (Finite x) = Finite (of_int \<lfloor>x\<rfloor>)"

text \<open>
  \<open>static_cast<size_t>\<close> of a double truncates towards zero; the behaviour is
  undefined when the truncated value is not a value of \<open>size_t\<close>.
\<close>

fun to_size_t :: "fp \<Rightarrow> fault + nat" where
  "to_size_t MinusInfinity = Inl Undefined_behaviour"
| "to_size_t (Finite x) =
     (if - 1 < x \<and> x < 2 ^ 64 then Inr (nat \<lfloor>x\<rfloor>) else Inl Undefined_behaviour)"

section \<open>Drawing (lines 96 to 130)\<close>

text \<open>Line 98: the width of the tick column.\<close>

definition digits :: "nat \<Rightarrow> fault + nat" where
  "digits peak =
     (case to_size_t (floor_fp (log10 (of_size_t peak))) of
        Inl f \<Rightarrow> Inl f
      | Inr d \<Rightarrow> Inr (d + 1))"

text \<open>Lines 103 and 104: the bounds of row \<open>r\<close>.\<close>

definition rowFloor :: "nat \<Rightarrow> nat \<Rightarrow> nat \<Rightarrow> real" where
  "rowFloor r rows peak = fmul (fdiv (of_size_t r) (of_size_t rows)) (of_size_t peak)"

definition rowCeil :: "nat \<Rightarrow> nat \<Rightarrow> nat \<Rightarrow> real" where
  "rowCeil r rows peak = fmul (fdiv (of_size_t (r + 1)) (of_size_t rows)) (of_size_t peak)"

text \<open>
  Line 108. In the loop \<open>r < rows\<close>, so the \<open>size_t\<close> subtraction does not wrap.
  A remainder by 0 is undefined.
\<close>

definition drawTick :: "nat \<Rightarrow> nat \<Rightarrow> nat \<Rightarrow> fault + bool" where
  "drawTick rows tickStride r =
     (if tickStride = 0 then Inl Undefined_behaviour
      else Inr ((rows - 1 - r) mod tickStride = 0))"

text \<open>\<open>std::to_string\<close> of a \<open>size_t\<close>: its decimal digits.\<close>

definition digit_char :: "nat \<Rightarrow> char" where
  "digit_char d = char_of (48 + d)"

fun to_string :: "nat \<Rightarrow> string" where
  "to_string n =
     (if n < 10 then [digit_char n] else to_string (n div 10) @ [digit_char (n mod 10)])"

text \<open>
  Line 112: \<open>tickStr.insert(tickStr.begin(), digits - tickStr.size(), ' ')\<close>. The
  count is a \<open>size_t\<close>: when the string is longer than \<open>digits\<close> the difference
  wraps around to \<open>2 ^ 64 + digits - size\<close>, the string asked for would have
  \<open>2 ^ 64 + digits\<close> characters, more than any \<open>max_size()\<close>, and \<open>insert\<close>
  throws \<open>std::length_error\<close>. \<open>width\<close> is the value of the variable \<open>digits\<close>.
\<close>

definition pad_left :: "nat \<Rightarrow> string \<Rightarrow> fault + string" where
  "pad_left width s =
     (if length s \<le> width then Inr (replicate (width - length s) CHR '' '' @ s)
      else Inl Length_error)"

text \<open>
  Line 111, inside the conditional: the double \<open>0.5 * (rowFloor + rowCeil)\<close>, and
  the label of a row that has a tick.
\<close>

definition middle :: "nat \<Rightarrow> nat \<Rightarrow> nat \<Rightarrow> real" where
  "middle r rows peak = fmul (1 / 2) (fadd (rowFloor r rows peak) (rowCeil r rows peak))"

definition tick_value :: "nat \<Rightarrow> nat \<Rightarrow> nat \<Rightarrow> fault + nat" where
  "tick_value r rows peak = to_size_t (Finite (middle r rows peak))"

text \<open>Lines 108 to 112: the tick column of row \<open>r\<close>.\<close>

definition tickStr :: "nat \<Rightarrow> nat \<Rightarrow> nat \<Rightarrow> nat \<Rightarrow> nat \<Rightarrow> fault + string" where
  "tickStr width rows tickStride peak r =
     (case drawTick rows tickStride r of
        Inl f \<Rightarrow> Inl f
      | Inr True \<Rightarrow>
          (case tick_value r rows peak of
             Inl f \<Rightarrow> Inl f
           | Inr v \<Rightarrow> pad_left width (to_string v))
      | Inr False \<Rightarrow> pad_left width [])"

text \<open>
  Lines 119 to 121: one marker for each letter of \<open>alphabet\<close>. The comparison
  \<open>hist[c] > rowFloor\<close> converts the count to \<open>double\<close>.
\<close>

definition bars :: "histogram \<Rightarrow> real \<Rightarrow> string" where
  "bars hist row_floor =
     map (\<lambda>c. if row_floor < of_size_t (bin hist c) then CHR ''*'' else CHR '' '') alphabet"

text \<open>The line printed for row \<open>r\<close>, without its newline.\<close>

definition row :: "nat \<Rightarrow> histogram \<Rightarrow> nat \<Rightarrow> nat \<Rightarrow> nat \<Rightarrow> nat \<Rightarrow> fault + string" where
  "row width hist rows tickStride peak r =
     (case tickStr width rows tickStride peak r of
        Inl f \<Rightarrow> Inl f
      | Inr t \<Rightarrow> Inr (t @ ''|'' @ bars hist (rowFloor r rows peak)))"

text \<open>
  The loop of line 101 over \<open>r = n - 1, \<dots>, 0\<close>: the lines printed, and the fault
  that stopped the loop if one did.
\<close>

fun draw_rows ::
  "nat \<Rightarrow> histogram \<Rightarrow> nat \<Rightarrow> nat \<Rightarrow> nat \<Rightarrow> nat \<Rightarrow> string list \<times> fault option" where
  "draw_rows width hist rows tickStride peak 0 = ([], None)"
| "draw_rows width hist rows tickStride peak (Suc r) =
     (case row width hist rows tickStride peak r of
        Inl f \<Rightarrow> ([], Some f)
      | Inr l \<Rightarrow>
          (case draw_rows width hist rows tickStride peak r of
             (ls, e) \<Rightarrow> (l # ls, e)))"

text \<open>Lines 126 to 130: the horizontal axis and the letters under it.\<close>

definition footer :: "nat \<Rightarrow> string list" where
  "footer width =
     [replicate width CHR '' '' @ ''+'' @ replicate (length alphabet) CHR ''-'',
      replicate width CHR '' '' @ ''|'' @ alphabet]"

datatype status = Exit nat | Abort fault

text \<open>Lines 84 to 130: what is printed for a text, and how the run ends.\<close>

definition core :: "string \<Rightarrow> nat \<Rightarrow> nat \<Rightarrow> string list \<times> status" where
  "core input rows tickStride =
     (case count_letters input of
        (hist, peak) \<Rightarrow>
          (case digits peak of
             Inl f \<Rightarrow> ([], Abort f)
           | Inr d \<Rightarrow>
               (case draw_rows d hist rows tickStride peak rows of
                  (ls, Some f) \<Rightarrow> (ls, Abort f)
                | (ls, None) \<Rightarrow> (ls @ footer d, Exit 0))))"

section \<open>The command line (lines 16 to 82)\<close>

text \<open>
  \<open>std::from_chars\<close> for a \<open>size_t\<close> in base 10 reads the longest prefix of
  decimal digits, with no sign and no white space. With no digit it reports
  \<open>invalid_argument\<close>, with a value past \<open>2 ^ 64 - 1\<close> it reports
  \<open>result_out_of_range\<close>; in both cases the variable keeps its value.
\<close>

datatype errc = no_error | invalid_argument | result_out_of_range

definition decimal_value :: "string \<Rightarrow> nat" where
  "decimal_value ds = foldl (\<lambda>a c. 10 * a + ((of_char c :: nat) - 48)) 0 ds"

definition from_chars :: "string \<Rightarrow> nat \<Rightarrow> errc \<times> nat" where
  "from_chars s setting =
     (let ds = takeWhile isdigit s in
      if ds = [] then (invalid_argument, setting)
      else if 2 ^ 64 \<le> decimal_value ds then (result_out_of_range, setting)
      else (no_error, decimal_value ds))"

text \<open>
  The lambda \<open>parseParam\<close> of lines 55 to 75: whether the flag is absent or well
  formed, the setting after the call, and the lines it printed. \<open>rng::find\<close> stops
  at the first argument equal to the flag, the program's name and the file's path
  included.
\<close>

definition parseParam :: "string list \<Rightarrow> string \<Rightarrow> nat \<Rightarrow> bool \<times> nat \<times> string list" where
  "parseParam args param setting =
     (case dropWhile (\<lambda>a. a \<noteq> param) args of
        [] \<Rightarrow> (True, setting, [])
      | [flag] \<Rightarrow> (False, setting, [''Missing argument for flag '' @ param])
      | flag # s # rest \<Rightarrow>
          (case from_chars s setting of
             (ec, v) \<Rightarrow>
               if ec \<noteq> no_error \<or> list_ex (\<lambda>c. \<not> isdigit c) s
               then (False, v, [''Invalid argument for flag '' @ param])
               else (True, v, [])))"

definition hint :: string where
  "hint = ''Please provide a path to a text file as an argument, --help for more details''"

definition usage :: "string list" where
  "usage =
     [''Usage: histogrammer input_file_path [OPTIONS]'',
      ''Prints histogram of characters in text file at input_file_path'',
      ''OPTIONS, any subset of the following:'',
      [CHR 0x09] @ ''-r row_count'' @ [CHR 0x09] @
        ''override row_count, program draws row_count rows of text-based histogram, default = 10'',
      [CHR 0x09] @ ''-s tick_stride'' @ [CHR 0x09] @
        ''override tick_stride, program draws a tick every tick_stride rows, default = 3'',
      ''Arguments must be positive integers'']"

text \<open>
  What a run of \<open>main\<close> does that can be seen from outside: the lines it writes to
  \<open>std::cout\<close>, the paths it tries to open, and how it ends. Falling off the end
  of \<open>main\<close> returns 0.
\<close>

record run =
  printed :: "string list"
  opened :: "string list"
  ended :: status

text \<open>
  \<open>main\<close>, with the file system as a function from a path to the content of the
  file, \<open>None\<close> when the file cannot be opened, and \<open>args\<close> the \<open>argc\<close> strings
  of \<open>argv\<close>. With \<open>argc = 0\<close> line 38 reads \<open>args[1]\<close> past the end of the span.
\<close>

definition main_prog :: "(string \<Rightarrow> string option) \<Rightarrow> string list \<Rightarrow> run" where
  "main_prog fs args =
     (if length args = 1 then \<lparr>printed = [hint], opened = [], ended = Exit 0\<rparr>
      else if list_ex (\<lambda>s. s = ''--help'') args
      then \<lparr>printed = usage, opened = [], ended = Exit 0\<rparr>
      else if length args < 2
      then \<lparr>printed = [], opened = [], ended = Abort Undefined_behaviour\<rparr>
      else
        (let filename = args ! 1 in
         case fs filename of
           None \<Rightarrow>
             \<lparr>printed = [''File '' @ [CHR 0x22] @ filename @ [CHR 0x22] @ '' not found''],
              opened = [filename], ended = Exit 1\<rparr>
         | Some input \<Rightarrow>
             (case parseParam args ''-r'' 10 of
                (False, rows, msg) \<Rightarrow> \<lparr>printed = msg, opened = [filename], ended = Exit 1\<rparr>
              | (True, rows, msg) \<Rightarrow>
                  (case parseParam args ''-s'' 3 of
                     (False, tickStride, msg) \<Rightarrow>
                       \<lparr>printed = msg, opened = [filename], ended = Exit 1\<rparr>
                   | (True, tickStride, msg) \<Rightarrow>
                       (case core input rows tickStride of
                          (ls, e) \<Rightarrow> \<lparr>printed = ls, opened = [filename], ended = e\<rparr>)))))"

text \<open>A file system with one file, for the examples.\<close>

definition one_file :: "string \<Rightarrow> string option" where
  "one_file path = (if path = ''in.txt'' then Some ''aabbbccccc'' else None)"

section \<open>Predicates of the proofs\<close>

text \<open>
  The invariant of the counting loop: no bin is above \<open>peak\<close>, a bin of a
  lower-case letter holds \<open>peak\<close> unless \<open>peak\<close> is 0, and every key of the map
  is a lower-case letter.
\<close>

definition counted :: "histogram \<times> nat \<Rightarrow> bool" where
  "counted s = (case s of (hist, peak) \<Rightarrow>
     (\<forall>c. bin hist c \<le> peak) \<and> (peak = 0 \<or> (\<exists>c\<in>set lower_case. bin hist c = peak))
     \<and> dom hist \<subseteq> set lower_case)"

text \<open>
  A value that \<open>parseParam\<close> refuses: the empty string, a string with a byte that is
  not a decimal digit, or a number that does not fit a \<open>size_t\<close>.
\<close>

definition invalid_value :: "string \<Rightarrow> bool" where
  "invalid_value s = (s = [] \<or> list_ex (\<lambda>c. \<not> isdigit c) s \<or> 2 ^ 64 \<le> decimal_value s)"

text \<open>
  The non-negative doubles, as reals: 0 and the numbers \<open>n * 2 ^ k\<close> with a
  significand \<open>n\<close> below \<open>2 ^ 53\<close>.
\<close>

definition representable :: "real \<Rightarrow> bool" where
  "representable x = (x = 0 \<or> (\<exists>n k. 0 < n \<and> n < 2 ^ 53 \<and> x = of_int n * 2 powi k))"

text \<open>
  The relative error of one rounding is at most \<open>eps\<close>. A double \<open>x\<close> computed with
  \<open>k\<close> roundings from operands that are not negative is \<open>close k x a\<close> to the real
  number \<open>a\<close> that the same expression gives without rounding.
\<close>

definition eps :: real where
  "eps = 1 / 2 ^ 53"

definition close :: "nat \<Rightarrow> real \<Rightarrow> real \<Rightarrow> bool" where
  "close k x a = (a * (1 - eps) ^ k \<le> x \<and> x \<le> a * (1 + eps) ^ k)"

section \<open>The counter counts letters, case folded\<close>

lemma mem_via_code: "c \<in> set cs \<longleftrightarrow> (of_char c :: nat) \<in> set (map of_char cs)"
  by (auto simp: inj_image_mem_iff [OF inj_of_char])

lemma letters_codes: "map of_char (upper_case @ lower_case) = [65..<91] @ [97..<123::nat]"
  by (simp add: upper_case_def lower_case_def upt_rec)

lemma isalpha_iff: "isalpha c \<longleftrightarrow> c \<in> set (upper_case @ lower_case)"
proof -
  have "c \<in> set (upper_case @ lower_case) \<longleftrightarrow> (of_char c :: nat) \<in> set ([65..<91] @ [97..<123])"
    using mem_via_code [of c "upper_case @ lower_case"] by (simp only: letters_codes)
  also have "\<dots> \<longleftrightarrow> isalpha c"
    by (simp only: set_append set_upt Un_iff atLeastLessThan_iff isalpha_def isupper_def islower_def) arith
  finally show ?thesis by simp
qed

lemma alphabet_eq: "alphabet = lower_case"
  unfolding lower_case_def by code_simp

lemma length_lower_case: "length lower_case = 26"
  by (simp add: lower_case_def)

lemma length_upper_case: "length upper_case = 26"
  by (simp add: upper_case_def)

lemma case_table:
  "list_all (\<lambda>i. isupper (upper_case ! i) \<and> tolower (upper_case ! i) = lower_case ! i
       \<and> islower (lower_case ! i) \<and> tolower (lower_case ! i) = lower_case ! i) [0..<26]"
  by code_simp

lemma case_fold:
  assumes "i < 26"
  shows "isalpha (upper_case ! i)" "tolower (upper_case ! i) = lower_case ! i"
    "isalpha (lower_case ! i)" "tolower (lower_case ! i) = lower_case ! i"
  using case_table assms unfolding list_all_iff isalpha_def by auto

lemma bin_upd: "bin (hist(k \<mapsto> b)) c = (if c = k then b else bin hist c)"
  by (simp add: bin_def)



section \<open>The peak is the largest count\<close>

lemma tolower_in_lower_case:
  assumes "isalpha c"
  shows "tolower c \<in> set lower_case"
proof -
  from assms have "c \<in> set upper_case \<or> c \<in> set lower_case"
    by (simp add: isalpha_iff)
  then obtain i where i: "i < 26" and c: "c = upper_case ! i \<or> c = lower_case ! i"
    by (auto simp: in_set_conv_nth length_upper_case length_lower_case)
  from c case_fold [OF i] have "tolower c = lower_case ! i" by auto
  with i show ?thesis by (simp add: length_lower_case)
qed

lemma counted_init: "counted (Map.empty, 0)"
  by (simp add: counted_def bin_def)

lemma counted_step:
  assumes "counted s"
  shows "counted (count_char c s)"
proof (cases "isalpha c")
  case False
  then show ?thesis using assms by (cases s) (simp add: count_char_def)
next
  case True
  obtain hist peak where s: "s = (hist, peak)" by (cases s)
  let ?k = "tolower c"
  let ?b = "bin hist ?k + 1"
  have k: "?k \<in> set lower_case" using True by (rule tolower_in_lower_case)
  have step: "count_char c s = (hist(?k \<mapsto> ?b), max ?b peak)"
    using True by (simp add: s count_char_def Let_def)
  from assms have le: "\<And>c. bin hist c \<le> peak"
    and at: "peak = 0 \<or> (\<exists>c\<in>set lower_case. bin hist c = peak)"
    and dom: "dom hist \<subseteq> set lower_case"
    by (auto simp: counted_def s)
  have 1: "bin (hist(?k \<mapsto> ?b)) c' \<le> max ?b peak" for c'
    using le [of c'] by (auto simp: bin_upd)
  have 2: "\<exists>c'\<in>set lower_case. bin (hist(?k \<mapsto> ?b)) c' = max ?b peak"
  proof (cases "peak \<le> ?b")
    case True
    then have "bin (hist(?k \<mapsto> ?b)) ?k = max ?b peak" by (simp add: bin_upd max_def)
    with k show ?thesis by blast
  next
    case False
    then have "peak \<noteq> 0" by simp
    with at obtain c' where c': "c' \<in> set lower_case" "bin hist c' = peak" by blast
    with False have "c' \<noteq> ?k" by auto
    with c' False have "bin (hist(?k \<mapsto> ?b)) c' = max ?b peak" by (simp add: bin_upd max_def)
    with c' show ?thesis by blast
  qed
  have 3: "dom (hist(?k \<mapsto> ?b)) \<subseteq> set lower_case"
    using dom k by auto
  from 1 2 3 show ?thesis
    unfolding step counted_def by simp
qed

lemma counted_loop: "counted s \<Longrightarrow> counted (count_loop input s)"
  by (induction input arbitrary: s) (simp_all add: counted_step)

lemma counted_Max:
  assumes "counted (hist, peak)"
  shows "peak = Max (bin hist ` set lower_case)"
proof -
  from assms have le: "\<And>c. bin hist c \<le> peak"
    and at: "peak = 0 \<or> (\<exists>c\<in>set lower_case. bin hist c = peak)"
    by (auto simp: counted_def)
  have "peak \<in> bin hist ` set lower_case"
  proof (cases "peak = 0")
    case True
    have "CHR ''a'' \<in> set lower_case" by (simp add: lower_case_def)
    moreover have "bin hist CHR ''a'' = 0" using le [of "CHR ''a''"] True by simp
    ultimately show ?thesis using True by force
  next
    case False
    with at show ?thesis by force
  qed
  then show ?thesis
    using le by (intro Max_eqI [symmetric]) auto
qed

lemma count_loop_no_letters:
  "set input \<inter> set (upper_case @ lower_case) = {} \<Longrightarrow> count_loop input s = s"
proof (induction input arbitrary: s)
  case Nil
  then show ?case by simp
next
  case (Cons c cs)
  then have "\<not> isalpha c" by (simp add: isalpha_iff)
  then have "count_char c s = s" by (cases s) (simp add: count_char_def)
  with Cons show ?case by simp
qed

text \<open>
  Claim C3. After the counting loop \<open>peak\<close> is the largest of the 26 bins of
  \<open>alphabet\<close>, and the map has no other key. A count is a \<open>size_t\<close>, here a natural
  number, so none is negative. A text with no letter, the empty one included, leaves
  every bin at 0 and \<open>peak\<close> at 0.
\<close>

theorem peak_is_max:
  "snd (count_letters input) = Max (bin (fst (count_letters input)) ` set alphabet) \<and>
   dom (fst (count_letters input)) \<subseteq> set alphabet \<and>
   (set input \<inter> set (upper_case @ lower_case) = {} \<longrightarrow>
      (\<forall>c. bin (fst (count_letters input)) c = 0) \<and> snd (count_letters input) = 0)"
proof -
  obtain hist peak where s: "count_letters input = (hist, peak)"
    by (cases "count_letters input")
  have c: "counted (hist, peak)"
    using counted_loop [OF counted_init, of input] s by (simp add: count_letters_def)
  have "peak = Max (bin hist ` set alphabet)"
    using counted_Max [OF c] by (simp add: alphabet_eq)
  moreover have "dom hist \<subseteq> set alphabet"
    using c by (simp add: counted_def alphabet_eq)
  moreover have "(\<forall>c. bin hist c = 0) \<and> peak = 0"
    if "set input \<inter> set (upper_case @ lower_case) = {}"
    using count_loop_no_letters [OF that, of "(Map.empty, 0)"] s
    by (auto simp: count_letters_def bin_def)
  ultimately show ?thesis unfolding s fst_conv snd_conv by blast
qed

text \<open>The texts \<open>Abba 12\<close>, whose peak is 2, and \<open>123 456\<close>, which has no letter.\<close>

theorem peak_is_max_witness:
  "snd (count_letters ''Abba 12'') = Max (bin (fst (count_letters ''Abba 12'')) ` set alphabet) \<and>
   snd (count_letters ''Abba 12'') = 2 \<and>
   bin (fst (count_letters ''123 456'')) CHR ''a'' = 0 \<and> snd (count_letters ''123 456'') = 0"
proof -
  have a: "set ''123 456'' \<inter> set (upper_case @ lower_case) = {}"
    by (simp add: upper_case_def lower_case_def)
  have b: "snd (count_letters ''Abba 12'') = 2"
    by code_simp
  from peak_is_max [of "''123 456''"] a peak_is_max [of "''Abba 12''"] b show ?thesis
    by blast
qed

section \<open>The command line is checked before the histogram is drawn\<close>

text \<open>
  Claim C10. With the program's name as the only argument the run prints the hint,
  opens no file and returns 0; nothing of the histogram is printed.
\<close>

theorem main_no_arguments:
  "main_prog fs [name] = \<lparr>printed = [hint], opened = [], ended = Exit 0\<rparr>"
  by (simp add: main_prog_def)

lemma from_chars_invalid:
  assumes "invalid_value s"
  shows "fst (from_chars s setting) \<noteq> no_error \<or> list_ex (\<lambda>c. \<not> isdigit c) s"
proof (cases "list_ex (\<lambda>c. \<not> isdigit c) s")
  case True
  then show ?thesis by simp
next
  case False
  then have all: "takeWhile isdigit s = s"
    by (simp add: list_ex_iff)
  from assms False have "s = [] \<or> 2 ^ 64 \<le> decimal_value s"
    by (simp add: invalid_value_def)
  then show ?thesis
    by (auto simp: from_chars_def all Let_def)
qed

lemma parseParam_invalid:
  assumes "args = pre @ flag # v # post" "flag \<notin> set pre" "invalid_value v"
  shows "parseParam args flag setting =
    (False, snd (from_chars v setting), [''Invalid argument for flag '' @ flag])"
proof -
  have "dropWhile (\<lambda>a. a \<noteq> flag) args = flag # v # post"
    using assms(1,2) by (auto simp: dropWhile_append3)
  then show ?thesis
    using from_chars_invalid [OF assms(3), of setting]
    by (cases "from_chars v setting") (auto simp: parseParam_def)
qed

lemma parseParam_messages:
  "parseParam args flag setting = (ok, v, msg) \<Longrightarrow>
     (ok \<and> msg = []) \<or>
     (\<not> ok \<and> (msg = [''Missing argument for flag '' @ flag] \<or>
                msg = [''Invalid argument for flag '' @ flag]))"
  by (auto simp: parseParam_def split: list.splits prod.splits if_splits)

text \<open>
  Claim C9, as the code has it. The run has at least the path argument and no
  \<open>--help\<close>; the first \<open>-r\<close> or the first \<open>-s\<close> among the arguments is followed by
  a value that is empty, has a byte that is not a digit, or is past \<open>2 ^ 64 - 1\<close>.
  Then the run prints one line, which is one of the four messages below, and returns
  1; the histogram is not drawn.
\<close>

theorem invalid_flag_value:
  assumes "2 \<le> length args" and "''--help'' \<notin> set args"
    and "flag = ''-r'' \<or> flag = ''-s''"
    and "args = pre @ flag # v # post" and "flag \<notin> set pre" and "invalid_value v"
  shows "ended (main_prog fs args) = Exit 1 \<and>
    opened (main_prog fs args) = [args ! 1] \<and>
    printed (main_prog fs args) \<in>
      {[''File '' @ [CHR 0x22] @ args ! 1 @ [CHR 0x22] @ '' not found''],
       [''Missing argument for flag -r''],
       [''Invalid argument for flag -r''],
       [''Invalid argument for flag -s'']}"
proof (cases "fs (args ! 1)")
  case None
  with assms(1,2) show ?thesis
    by (simp add: main_prog_def list_ex_iff Let_def)
next
  case (Some input)
  obtain ok rows msg where r: "parseParam args ''-r'' 10 = (ok, rows, msg)"
    by (cases "parseParam args ''-r'' 10")
  show ?thesis
  proof (cases ok)
    case False
    with parseParam_messages [OF r]
    have "msg = [''Missing argument for flag -r''] \<or> msg = [''Invalid argument for flag -r'']"
      by simp
    with assms(1,2) Some r False show ?thesis
      by (auto simp: main_prog_def list_ex_iff Let_def)
  next
    case True
    have s: "flag = ''-s''"
    proof (rule ccontr)
      assume "flag \<noteq> ''-s''"
      with assms(3) have "flag = ''-r''" by simp
      with parseParam_invalid [OF assms(4,5,6), of 10] r True show False by simp
    qed
    from parseParam_invalid [OF assms(4,5,6), of 3] s
    have "parseParam args ''-s'' 3 =
      (False, snd (from_chars v 3), [''Invalid argument for flag -s''])"
      by simp
    with assms(1,2) Some r True show ?thesis
      by (simp add: main_prog_def list_ex_iff Let_def)
  qed
qed

text \<open>The run \<open>histogrammer in.txt -r 12x\<close>, on a file that opens.\<close>

theorem invalid_flag_value_witness:
  "ended (main_prog one_file [''histogrammer'', ''in.txt'', ''-r'', ''12x'']) = Exit 1 \<and>
   printed (main_prog one_file [''histogrammer'', ''in.txt'', ''-r'', ''12x''])
     = [''Invalid argument for flag -r'']"
proof -
  have a: "invalid_value ''12x''"
    by (simp add: invalid_value_def isdigit_def)
  have b: "[''histogrammer'', ''in.txt'', ''-r'', ''12x''] =
      [''histogrammer'', ''in.txt''] @ ''-r'' # ''12x'' # []"
    by simp
  have c: "printed (main_prog one_file [''histogrammer'', ''in.txt'', ''-r'', ''12x''])
     = [''Invalid argument for flag -r'']"
    by (simp add: main_prog_def one_file_def parseParam_def from_chars_def isdigit_def
        decimal_value_def Let_def)
  from invalid_flag_value [OF _ _ _ b _ a, of one_file] c show ?thesis
    by simp
qed

text \<open>
  The claim as stated fails when \<open>--help\<close> is among the arguments: line 25 comes
  first, the run prints the six lines of the usage text and returns 0.
\<close>

theorem invalid_flag_value_help_counterexample:
  "invalid_value ''abc'' \<and>
   main_prog one_file [''histogrammer'', ''in.txt'', ''-r'', ''abc'', ''--help''] =
     \<lparr>printed = usage, opened = [], ended = Exit 0\<rparr> \<and>
   length usage = 6"
  by (simp add: invalid_value_def isdigit_def main_prog_def usage_def)

text \<open>
  The value \<open>0\<close> passes \<open>parseParam\<close>, and the run goes on to the histogram
  (lemma \<open>stride_0_undefined\<close> follows it there).
\<close>

lemma zero_is_accepted:
  "parseParam [''histogrammer'', ''in.txt'', ''-s'', ''0''] ''-s'' 3 = (True, 0, [])"
  by (simp add: parseParam_def from_chars_def isdigit_def decimal_value_def Let_def)

section \<open>Rounding to a double\<close>

lemma rne_of_int: "rne (of_int n) = n"
  by (simp add: rne_def)

lemma rne_floor_le: "\<lfloor>x\<rfloor> \<le> rne x"
  by (simp add: rne_def Let_def)

lemma rne_le_floor: "rne x \<le> \<lfloor>x\<rfloor> + 1"
  by (simp add: rne_def Let_def)

lemma rne_mono:
  assumes "x \<le> y"
  shows "rne x \<le> rne y"
proof (cases "\<lfloor>x\<rfloor> = \<lfloor>y\<rfloor>")
  case True
  with assms have "x - of_int \<lfloor>x\<rfloor> \<le> y - of_int \<lfloor>y\<rfloor>" by simp
  with True show ?thesis
    by (auto simp: rne_def Let_def)
next
  case False
  with assms have "\<lfloor>x\<rfloor> + 1 \<le> \<lfloor>y\<rfloor>"
    using floor_mono [OF assms] by linarith
  with rne_le_floor [of x] rne_floor_le [of y] show ?thesis by linarith
qed

lemma rne_ge: "of_int a \<le> x \<Longrightarrow> a \<le> rne x"
  using rne_mono [of "of_int a" x] by (simp add: rne_of_int)

lemma rne_le: "x \<le> of_int b \<Longrightarrow> rne x \<le> b"
  using rne_mono [of x "of_int b"] by (simp add: rne_of_int)

lemma ilog2_bounds:
  assumes "0 < x"
  shows "2 powi ilog2 x \<le> x" and "x < 2 powi (ilog2 x + 1)"
proof -
  have "2 powi ilog2 x \<le> x \<and> x < 2 powi (ilog2 x + 1)"
  proof (cases "1 \<le> x")
    case True
    define n where "n = \<lfloor>x\<rfloor>"
    have n: "0 < n" "of_int n \<le> x" "x < of_int n + 1"
      using True by (auto simp: n_def)
    from bitlen_bounds [OF n(1)]
    have lo: "2 ^ nat (bitlen n - 1) \<le> n" and hi: "n < 2 ^ nat (bitlen n)" by auto
    have b: "1 \<le> bitlen n" using n(1) by (simp add: bitlen_alt_def)
    have e: "ilog2 x = bitlen n - 1" using True by (simp add: ilog2_def n_def)
    have "(2::real) powi (bitlen n - 1) = of_int (2 ^ nat (bitlen n - 1))"
      using b by (simp add: power_int_nonneg_exp)
    also have "\<dots> \<le> of_int n" using lo by (simp only: of_int_le_iff)
    finally have 1: "2 powi ilog2 x \<le> x" using n(2) e by simp
    have "n + 1 \<le> 2 ^ nat (bitlen n)" using hi by simp
    then have "(of_int (n + 1) :: real) \<le> of_int (2 ^ nat (bitlen n))"
      by (simp only: of_int_le_iff)
    also have "\<dots> = 2 powi (bitlen n)"
      using b by (simp add: power_int_nonneg_exp)
    finally have "x < 2 powi (ilog2 x + 1)" using n(3) e by simp
    with 1 show ?thesis by simp
  next
    case False
    define m where "m = \<lceil>1 / x\<rceil> - 1"
    from False assms have inv: "1 < 1 / x" by simp
    have m: "0 < m" "of_int m < 1 / x" "1 / x \<le> of_int m + 1"
      using inv by (auto simp: m_def) linarith+
    from bitlen_bounds [OF m(1)]
    have lo: "2 ^ nat (bitlen m - 1) \<le> m" and hi: "m < 2 ^ nat (bitlen m)" by auto
    have b: "1 \<le> bitlen m" using m(1) by (simp add: bitlen_alt_def)
    have e: "ilog2 x = - bitlen m" using False by (simp add: ilog2_def m_def)
    have "m + 1 \<le> 2 ^ nat (bitlen m)" using hi by simp
    then have "(of_int (m + 1) :: real) \<le> of_int (2 ^ nat (bitlen m))"
      by (simp only: of_int_le_iff)
    also have "\<dots> = 2 powi (bitlen m)"
      using b by (simp add: power_int_nonneg_exp)
    finally have "1 / x \<le> 2 powi (bitlen m)" using m(3) by simp
    then have "1 / 2 powi (bitlen m) \<le> x"
      using assms by (simp add: field_simps)
    then have 1: "2 powi ilog2 x \<le> x"
      by (simp add: e power_int_minus field_simps)
    have "(2::real) powi (bitlen m - 1) = of_int (2 ^ nat (bitlen m - 1))"
      using b by (simp add: power_int_nonneg_exp)
    also have "\<dots> \<le> of_int m" using lo by (simp only: of_int_le_iff)
    finally have "2 powi (bitlen m - 1) < 1 / x" using m(2) by simp
    then have "x < 1 / 2 powi (bitlen m - 1)"
      using assms by (simp add: field_simps)
    also have "\<dots> = 2 powi (ilog2 x + 1)"
      by (simp add: e power_int_minus_divide [symmetric])
    finally show ?thesis using 1 by simp
  qed
  then show "2 powi ilog2 x \<le> x" and "x < 2 powi (ilog2 x + 1)" by simp_all
qed

lemma ilog2_unique:
  assumes "2 powi e \<le> x" and "x < 2 powi (e + 1)"
  shows "ilog2 x = e"
proof -
  have pos: "0 < x" using assms(1) by (rule less_le_trans [rotated]) simp
  from ilog2_bounds [OF pos] assms
  have "(2::real) powi e < 2 powi (ilog2 x + 1)" and "(2::real) powi ilog2 x < 2 powi (e + 1)"
    by linarith+
  then have "\<not> ilog2 x + 1 \<le> e" and "\<not> e + 1 \<le> ilog2 x"
    using power_int_increasing [of "ilog2 x + 1" e "2::real"]
      power_int_increasing [of "e + 1" "ilog2 x" "2::real"] by auto
  then show ?thesis by simp
qed

lemma rnd_0: "rnd 0 = 0"
  by (simp add: rnd_def)

lemma rnd_pos:
  assumes "0 < x"
  shows "rnd x = of_int (rne (x * 2 powi (52 - ilog2 x))) * 2 powi (ilog2 x - 52)"
  using assms by (simp add: rnd_def Let_def)

lemma significand_bounds:
  assumes "0 < x"
  shows "of_int (2 ^ 52) \<le> x * 2 powi (52 - ilog2 x)"
    and "x * 2 powi (52 - ilog2 x) \<le> of_int (2 ^ 53)"
proof -
  define p :: real where "p = 2 powi ilog2 x"
  define c :: real where "c = 2 powi 52"
  have p: "0 < p" and c: "0 < c" by (simp_all add: p_def c_def)
  have eq: "x * 2 powi (52 - ilog2 x) = c * (x / p)"
    by (simp add: power_int_diff p_def c_def)
  have c52: "of_int (2 ^ 52) = c" and c53: "of_int (2 ^ 53) = c * 2"
    by (simp_all add: c_def)
  from ilog2_bounds(1) [OF assms] p have "1 \<le> x / p"
    by (simp add: p_def)
  then have "c * 1 \<le> c * (x / p)"
    using c by (intro mult_left_mono) simp_all
  then show "of_int (2 ^ 52) \<le> x * 2 powi (52 - ilog2 x)"
    by (simp only: eq c52 mult_1_right)
  have "x < p * 2" using ilog2_bounds(2) [OF assms]
    by (simp add: power_int_add p_def)
  with p have "x / p \<le> 2"
    by (simp add: field_simps)
  then have "c * (x / p) \<le> c * 2"
    using c by (intro mult_left_mono) simp_all
  then show "x * 2 powi (52 - ilog2 x) \<le> of_int (2 ^ 53)"
    by (simp only: eq c53)
qed

lemma rnd_bounds:
  assumes "0 < x"
  shows "2 powi ilog2 x \<le> rnd x" and "rnd x \<le> 2 powi (ilog2 x + 1)"
proof -
  define N where "N = rne (x * 2 powi (52 - ilog2 x))"
  define s :: real where "s = 2 powi (ilog2 x - 52)"
  define c :: real where "c = 2 powi 52"
  have r: "rnd x = of_int N * s"
    by (simp only: rnd_pos [OF assms] N_def s_def)
  have s: "0 \<le> s" by (simp add: s_def)
  have "2 ^ 52 \<le> N"
    unfolding N_def using significand_bounds(1) [OF assms] by (rule rne_ge)
  then have "(of_int (2 ^ 52) :: real) \<le> of_int N" by (simp only: of_int_le_iff)
  then have lo: "c \<le> of_int N" by (simp add: c_def)
  have "N \<le> 2 ^ 53"
    unfolding N_def using significand_bounds(2) [OF assms] by (rule rne_le)
  then have "(of_int N :: real) \<le> of_int (2 ^ 53)" by (simp only: of_int_le_iff)
  then have hi: "of_int N \<le> c * 2" by (simp add: c_def)
  have "2 powi ilog2 x = c * s"
    by (simp add: c_def s_def power_int_diff)
  also have "\<dots> \<le> of_int N * s"
    using lo s by (rule mult_right_mono)
  finally show "2 powi ilog2 x \<le> rnd x"
    by (simp only: r)
  have "of_int N * s \<le> c * 2 * s"
    using hi s by (rule mult_right_mono)
  also have "\<dots> = 2 powi (ilog2 x + 1)"
    by (simp add: c_def s_def power_int_diff power_int_add)
  finally show "rnd x \<le> 2 powi (ilog2 x + 1)"
    by (simp only: r)
qed

lemma rnd_pos_pos: "0 < x \<Longrightarrow> 0 < rnd x"
  using rnd_bounds(1) [of x] by (rule_tac less_le_trans [of _ "2 powi ilog2 x"]) simp_all

lemma rnd_nonneg: "0 \<le> x \<Longrightarrow> 0 \<le> rnd x"
  using rnd_pos_pos [of x] by (cases "x = 0") (simp_all add: rnd_0)

lemma ilog2_mono:
  assumes "0 < x" and "x \<le> y"
  shows "ilog2 x \<le> ilog2 y"
proof (rule ccontr)
  assume "\<not> ilog2 x \<le> ilog2 y"
  then have "ilog2 y + 1 \<le> ilog2 x" by simp
  then have "(2::real) powi (ilog2 y + 1) \<le> 2 powi ilog2 x"
    by (intro power_int_increasing) simp_all
  with ilog2_bounds(1) [OF assms(1)] ilog2_bounds(2) [of y] assms show False
    by linarith
qed

lemma rnd_mono:
  assumes "0 \<le> x" and "x \<le> y"
  shows "rnd x \<le> rnd y"
proof (cases "x = 0")
  case True
  with assms rnd_nonneg [of y] show ?thesis by (simp add: rnd_0)
next
  case False
  with assms have x: "0 < x" and y: "0 < y" by simp_all
  show ?thesis
  proof (cases "ilog2 x = ilog2 y")
    case True
    have "x * 2 powi (52 - ilog2 y) \<le> y * 2 powi (52 - ilog2 y)"
      using assms(2) by (intro mult_right_mono) simp_all
    then have "rne (x * 2 powi (52 - ilog2 y)) \<le> rne (y * 2 powi (52 - ilog2 y))"
      by (rule rne_mono)
    then have "(of_int (rne (x * 2 powi (52 - ilog2 y))) :: real) * 2 powi (ilog2 y - 52)
        \<le> of_int (rne (y * 2 powi (52 - ilog2 y))) * 2 powi (ilog2 y - 52)"
      by (intro mult_right_mono) simp_all
    then show ?thesis
      by (simp only: rnd_pos [OF x] rnd_pos [OF y] True)
  next
    case False
    with ilog2_mono [OF x assms(2)] have "ilog2 x + 1 \<le> ilog2 y" by simp
    then have "(2::real) powi (ilog2 x + 1) \<le> 2 powi ilog2 y"
      by (intro power_int_increasing) simp_all
    with rnd_bounds(2) [OF x] rnd_bounds(1) [OF y] show ?thesis by linarith
  qed
qed

text \<open>A number with a significand of at most 53 bits is its own rounding.\<close>

lemma rnd_exact:
  assumes "0 < n" and "n < 2 ^ 53"
  shows "rnd (of_int n * 2 powi k) = of_int n * 2 powi k"
proof -
  define x :: real where "x = of_int n * 2 powi k"
  define c :: real where "c = 2 powi 53"
  have x: "0 < x" using assms(1) by (simp add: x_def)
  have "(of_int n :: real) < of_int (2 ^ 53)"
    using assms(2) by (simp only: of_int_less_iff)
  then have "of_int n < c" by (simp add: c_def)
  then have "x < c * 2 powi k"
    unfolding x_def by (intro mult_strict_right_mono) simp_all
  also have "\<dots> = 2 powi (k + 53)"
    by (simp add: c_def power_int_add)
  finally have "2 powi ilog2 x < (2::real) powi (k + 53)"
    using ilog2_bounds(1) [OF x] by linarith
  then have "\<not> k + 53 \<le> ilog2 x"
    using power_int_increasing [of "k + 53" "ilog2 x" "2::real"] by auto
  then have e: "0 \<le> k + 52 - ilog2 x" by simp
  define j where "j = nat (k + 52 - ilog2 x)"
  have j: "(2::real) powi (k + 52 - ilog2 x) = 2 ^ j"
    using e by (simp add: power_int_nonneg_exp j_def)
  have "x * 2 powi (52 - ilog2 x) = of_int n * (2 powi k * 2 powi (52 - ilog2 x))"
    by (simp add: x_def)
  also have "2 powi k * 2 powi (52 - ilog2 x) = (2::real) powi (k + 52 - ilog2 x)"
    by (simp add: power_int_add power_int_diff)
  finally have "x * 2 powi (52 - ilog2 x) = of_int (n * 2 ^ j)"
    by (simp add: j)
  then have "rne (x * 2 powi (52 - ilog2 x)) = n * 2 ^ j"
    by (simp only: rne_of_int)
  then have "rnd x = of_int (n * 2 ^ j) * 2 powi (ilog2 x - 52)"
    by (simp only: rnd_pos [OF x])
  also have "\<dots> = of_int n * (2 powi (k + 52 - ilog2 x) * 2 powi (ilog2 x - 52))"
    by (simp add: j)
  also have "2 powi (k + 52 - ilog2 x) * 2 powi (ilog2 x - 52) = (2::real) powi k"
    by (simp add: power_int_add power_int_diff)
  finally show ?thesis by (simp only: x_def)
qed

lemma rnd_representable: "representable x \<Longrightarrow> rnd x = x"
  by (auto simp: representable_def rnd_0 rnd_exact)

lemma representable_rnd:
  assumes "0 \<le> x"
  shows "representable (rnd x)"
proof (cases "x = 0")
  case True
  then show ?thesis by (simp add: rnd_0 representable_def)
next
  case False
  with assms have x: "0 < x" by simp
  define N where "N = rne (x * 2 powi (52 - ilog2 x))"
  have r: "rnd x = of_int N * 2 powi (ilog2 x - 52)"
    by (simp only: rnd_pos [OF x] N_def)
  have lo: "2 ^ 52 \<le> N"
    unfolding N_def using significand_bounds(1) [OF x] by (rule rne_ge)
  have hi: "N \<le> 2 ^ 53"
    unfolding N_def using significand_bounds(2) [OF x] by (rule rne_le)
  show ?thesis
  proof (cases "N = 2 ^ 53")
    case True
    have "rnd x = of_int 1 * 2 powi (ilog2 x + 1)"
      by (simp add: r True power_int_add power_int_diff)
    moreover have "(0::int) < 1" "(1::int) < 2 ^ 53" by simp_all
    ultimately show ?thesis unfolding representable_def by blast
  next
    case False
    with lo hi have "0 < N" "N < 2 ^ 53" by simp_all
    with r show ?thesis unfolding representable_def by blast
  qed
qed

lemma rnd_idem: "0 \<le> x \<Longrightarrow> rnd (rnd x) = rnd x"
  by (rule rnd_representable) (rule representable_rnd)

lemma representable_scale:
  assumes "representable x"
  shows "representable (x * 2 powi j)"
proof (cases "x = 0")
  case True
  then show ?thesis by (simp add: representable_def)
next
  case False
  with assms obtain n k where n: "0 < n" "n < 2 ^ 53" and x: "x = of_int n * 2 powi k"
    by (auto simp: representable_def)
  have "x * 2 powi j = of_int n * 2 powi (k + j)"
    by (simp add: x power_int_add)
  with n show ?thesis unfolding representable_def by blast
qed

lemma representable_nat:
  assumes "n < 2 ^ 53"
  shows "representable (real n)"
proof (cases "n = 0")
  case True
  then show ?thesis by (simp add: representable_def)
next
  case False
  have "int n < int (2 ^ 53)" using assms by (simp only: of_nat_less_iff)
  then have "int n < 2 ^ 53" by simp
  moreover have "0 < int n" using False by simp
  moreover have "real n = of_int (int n) * 2 powi 0" by simp
  ultimately show ?thesis unfolding representable_def by blast
qed

lemma of_size_t_exact: "n < 2 ^ 53 \<Longrightarrow> of_size_t n = real n"
  unfolding of_size_t_def by (rule rnd_representable) (rule representable_nat)

lemma of_size_t_0: "of_size_t 0 = 0"
  by (simp add: of_size_t_def rnd_0)

lemma of_size_t_mono: "a \<le> b \<Longrightarrow> of_size_t a \<le> of_size_t b"
  unfolding of_size_t_def by (rule rnd_mono) simp_all

lemma of_size_t_nonneg: "0 \<le> of_size_t n"
  unfolding of_size_t_def by (rule rnd_nonneg) simp

lemma of_size_t_ge_1:
  assumes "0 < n"
  shows "1 \<le> of_size_t n"
proof -
  have "of_size_t 1 = 1" using of_size_t_exact [of 1] by simp
  with of_size_t_mono [of 1 n] assms show ?thesis by simp
qed

lemma representable_of_size_t: "representable (of_size_t n)"
  unfolding of_size_t_def by (rule representable_rnd) simp

lemma fdiv_bounds:
  assumes "a \<le> rows" and "0 < rows"
  shows "0 \<le> fdiv (of_size_t a) (of_size_t rows)" and "fdiv (of_size_t a) (of_size_t rows) \<le> 1"
proof -
  have p: "0 < of_size_t rows" using of_size_t_ge_1 [OF assms(2)] by simp
  have q: "0 \<le> of_size_t a / of_size_t rows"
    using p of_size_t_nonneg [of a] by simp
  then show "0 \<le> fdiv (of_size_t a) (of_size_t rows)"
    unfolding fdiv_def by (rule rnd_nonneg)
  have "of_size_t a / of_size_t rows \<le> 1"
    using p of_size_t_mono [OF assms(1)] by simp
  with q have "rnd (of_size_t a / of_size_t rows) \<le> rnd 1"
    by (rule rnd_mono)
  moreover have "rnd 1 = 1" using rnd_exact [of 1 0] by simp
  ultimately show "fdiv (of_size_t a) (of_size_t rows) \<le> 1"
    by (simp add: fdiv_def)
qed

lemma fmul_le:
  assumes "0 \<le> q" and "q \<le> 1"
  shows "0 \<le> fmul q (of_size_t peak)" and "fmul q (of_size_t peak) \<le> of_size_t peak"
proof -
  have n: "0 \<le> q * of_size_t peak"
    using assms(1) of_size_t_nonneg [of peak] by simp
  then show "0 \<le> fmul q (of_size_t peak)"
    unfolding fmul_def by (rule rnd_nonneg)
  have "q * of_size_t peak \<le> 1 * of_size_t peak"
    using assms(2) of_size_t_nonneg [of peak] by (rule mult_right_mono)
  with n have "rnd (q * of_size_t peak) \<le> rnd (of_size_t peak)"
    by (intro rnd_mono) simp_all
  then show "fmul q (of_size_t peak) \<le> of_size_t peak"
    by (simp add: fmul_def rnd_representable [OF representable_of_size_t])
qed

lemma rowFloor_bounds:
  assumes "r < rows"
  shows "0 \<le> rowFloor r rows peak" and "rowFloor r rows peak \<le> of_size_t peak"
  unfolding rowFloor_def
  using fdiv_bounds [of r rows] assms by (auto intro: fmul_le)

lemma rowCeil_bounds:
  assumes "r < rows"
  shows "0 \<le> rowCeil r rows peak" and "rowCeil r rows peak \<le> of_size_t peak"
  unfolding rowCeil_def
  using fdiv_bounds [of "r + 1" rows] assms by (auto intro: fmul_le)

text \<open>The middle of a row, as line 111 computes it, is between 0 and the peak.\<close>

lemma middle_bounds:
  assumes "r < rows"
  shows "0 \<le> middle r rows peak" and "middle r rows peak \<le> of_size_t peak"
proof -
  define P where "P = of_size_t peak"
  define s where "s = rowFloor r rows peak + rowCeil r rows peak"
  have s: "0 \<le> s" "s \<le> P * 2"
    using rowFloor_bounds [OF assms, of peak] rowCeil_bounds [OF assms, of peak]
    by (simp_all add: s_def P_def)
  have two: "rnd (P * 2) = P * 2"
    using representable_scale [OF representable_of_size_t, of peak 1]
    by (intro rnd_representable) (simp add: P_def)
  have a: "0 \<le> rnd s" using s(1) by (rule rnd_nonneg)
  have b: "rnd s \<le> P * 2" using rnd_mono [OF s] by (simp only: two)
  have "0 \<le> 1 / 2 * rnd s" using a by simp
  then show "0 \<le> middle r rows peak"
    unfolding middle_def fmul_def fadd_def s_def [symmetric] by (rule rnd_nonneg)
  have "rnd (1 / 2 * rnd s) \<le> rnd P"
    using a b by (intro rnd_mono) simp_all
  then show "middle r rows peak \<le> of_size_t peak"
    unfolding middle_def fmul_def fadd_def s_def [symmetric]
    by (simp add: P_def rnd_representable [OF representable_of_size_t])
qed

section \<open>The width of the tick column\<close>

declare to_string.simps [simp del]

lemma length_to_string_le:
  "n < 10 ^ d \<Longrightarrow> 0 < d \<Longrightarrow> length (to_string n) \<le> d"
proof (induction n arbitrary: d rule: to_string.induct)
  case (1 n)
  show ?case
  proof (cases "n < 10")
    case True
    with "1.prems" show ?thesis by (simp add: to_string.simps [of n])
  next
    case False
    with "1.prems" have d: "1 < d"
      by (cases "d = 1") auto
    then obtain d' where d': "d = Suc d'" "0 < d'" by (cases d) auto
    from "1.prems"(1) have "n div 10 < 10 ^ d'"
      by (simp add: d' less_mult_imp_div_less)
    from "1.IH" [OF False this d'(2)] False show ?thesis
      by (simp add: to_string.simps [of n] d')
  qed
qed

lemma length_to_string: "0 < n \<Longrightarrow> length (to_string n) = floorlog 10 n"
proof (induction n rule: to_string.induct)
  case (1 n)
  show ?case
  proof (cases "n < 10")
    case True
    with "1.prems" have "floorlog 10 n = 1"
      by (subst compute_floorlog) (simp add: floorlog_eq_zero_iff)
    with True show ?thesis by (simp add: to_string.simps [of n])
  next
    case False
    then have "0 < n div 10" by (simp add: div_greater_zero_iff)
    from "1.IH" [OF False this] False "1.prems" show ?thesis
      by (subst compute_floorlog) (simp add: to_string.simps [of n])
  qed
qed



lemma digits_0: "digits 0 = Inl Undefined_behaviour"
  by (simp add: digits_def of_size_t_0 log10_def)

lemma rnd_small_int:
  assumes "0 \<le> j" and "j < 2 ^ 53"
  shows "rnd (of_int j) = of_int j"
proof (cases "j = 0")
  case True
  then show ?thesis by (simp add: rnd_0)
next
  case False
  with assms have "0 < j" by simp
  from rnd_exact [OF this assms(2), of 0] show ?thesis by simp
qed

lemma of_size_t_le_2_64:
  assumes "peak < 2 ^ 64"
  shows "of_size_t peak \<le> 2 ^ 64"
proof -
  have "real peak \<le> real (2 ^ 64)" using assms by (simp only: of_nat_le_iff less_imp_le)
  then have "real peak \<le> 2 ^ 64" by simp
  then have "rnd (real peak) \<le> rnd (2 ^ 64)" by (intro rnd_mono) simp_all
  moreover have "rnd (2 ^ 64) = 2 ^ 64" using rnd_exact [of 1 64] by simp
  ultimately show ?thesis by (simp add: of_size_t_def)
qed

text \<open>The logarithm of a peak from 1, and its rounding.\<close>

lemma log10_peak:
  assumes "0 < peak" and "peak < 2 ^ 64"
  shows "0 \<le> log 10 (of_size_t peak)" and "log 10 (of_size_t peak) < 20"
    and "0 \<le> rnd (log 10 (of_size_t peak))" and "rnd (log 10 (of_size_t peak)) \<le> 20"
    and "\<lfloor>log 10 (of_size_t peak)\<rfloor> \<le> \<lfloor>rnd (log 10 (of_size_t peak))\<rfloor>"
proof -
  define P where "P = of_size_t peak"
  have P: "1 \<le> P" "P \<le> 2 ^ 64"
    using of_size_t_ge_1 [OF assms(1)] of_size_t_le_2_64 [OF assms(2)] by (simp_all add: P_def)
  then show 0: "0 \<le> log 10 (of_size_t peak)" by (simp add: P_def)
  have "P < 10 powr 20" using P(2) by simp
  then show u: "log 10 (of_size_t peak) < 20"
    using P(1) by (simp add: P_def log_less_iff)
  from 0 show "0 \<le> rnd (log 10 (of_size_t peak))" by (rule rnd_nonneg)
  have "rnd (log 10 (of_size_t peak)) \<le> rnd 20"
    using 0 u by (intro rnd_mono) simp_all
  moreover have "rnd 20 = 20" using rnd_small_int [of 20] by simp
  ultimately show "rnd (log 10 (of_size_t peak)) \<le> 20" by simp
  define j where "j = \<lfloor>log 10 (of_size_t peak)\<rfloor>"
  have j: "0 \<le> j" "j < 20" using 0 u by (simp_all add: j_def floor_less_iff)
  then have "j < 2 ^ 53" by simp
  with j(1) have "rnd (of_int j) = of_int j" by (rule rnd_small_int)
  moreover have "rnd (of_int j) \<le> rnd (log 10 (of_size_t peak))"
    using j(1) by (intro rnd_mono) (simp_all add: j_def)
  ultimately have "of_int j \<le> rnd (log 10 (of_size_t peak))" by simp
  then show "\<lfloor>log 10 (of_size_t peak)\<rfloor> \<le> \<lfloor>rnd (log 10 (of_size_t peak))\<rfloor>"
    unfolding j_def [symmetric] by (simp add: le_floor_iff)
qed

lemma digits_eq:
  assumes "0 < peak" and "peak < 2 ^ 64"
  shows "digits peak = Inr (nat \<lfloor>rnd (log 10 (of_size_t peak))\<rfloor> + 1)"
proof -
  have nz: "of_size_t peak \<noteq> 0" using of_size_t_ge_1 [OF assms(1)] by simp
  from log10_peak(3,4) [OF assms]
  have "- 1 < real_of_int \<lfloor>rnd (log 10 (of_size_t peak))\<rfloor>"
    and "real_of_int \<lfloor>rnd (log 10 (of_size_t peak))\<rfloor> \<le> 20"
    by linarith+
  then have "- 1 < real_of_int \<lfloor>rnd (log 10 (of_size_t peak))\<rfloor>"
    and "real_of_int \<lfloor>rnd (log 10 (of_size_t peak))\<rfloor> < 2 ^ 64"
    by simp_all
  then show ?thesis
    using nz by (simp add: digits_def log10_def)
qed

text \<open>
  Whenever line 98 gives a width, the width is at least 1 and has room for the
  decimal digits of the peak.
\<close>

lemma digits_width:
  assumes "digits peak = Inr d" and "peak < 2 ^ 64"
  shows "1 \<le> d" and "of_size_t peak < 10 ^ d"
proof -
  have pos: "0 < peak"
  proof (rule ccontr)
    assume "\<not> 0 < peak"
    then have "peak = 0" by simp
    with assms(1) show False by (simp add: digits_0)
  qed
  define P where "P = of_size_t peak"
  have d: "d = nat \<lfloor>rnd (log 10 P)\<rfloor> + 1"
    using digits_eq [OF pos assms(2)] assms(1) by (simp add: P_def)
  then show "1 \<le> d" by simp
  have P: "0 < P" using of_size_t_ge_1 [OF pos] by (simp add: P_def)
  have f: "0 \<le> \<lfloor>log 10 P\<rfloor>" using log10_peak(1) [OF pos assms(2)] by (simp add: P_def)
  have le: "\<lfloor>log 10 P\<rfloor> \<le> \<lfloor>rnd (log 10 P)\<rfloor>"
    using log10_peak(5) [OF pos assms(2)] by (simp add: P_def)
  have "log 10 P < of_int (\<lfloor>log 10 P\<rfloor> + 1)" by linarith
  also have "\<dots> \<le> of_int (\<lfloor>rnd (log 10 P)\<rfloor> + 1)" using le by simp
  also have "\<dots> = real d"
  proof -
    from f le have "0 \<le> \<lfloor>rnd (log 10 P)\<rfloor>" by linarith
    then show ?thesis by (simp add: d)
  qed
  finally have "P < 10 powr real d"
    using P by (simp add: log_less_iff)
  then show "of_size_t peak < 10 ^ d"
    by (simp add: P_def powr_realpow)
qed

lemma digits_defined:
  assumes "0 < peak" and "peak < 2 ^ 64"
  shows "\<exists>d. digits peak = Inr d"
  using digits_eq [OF assms] by blast

text \<open>
  For a peak from 1 up to \<open>10 ^ 13\<close> line 98 gives the number of decimal digits of
  the peak: the logarithm of a number of \<open>k\<close> digits is so far below \<open>k\<close> that its
  rounding is below \<open>k\<close> too.
\<close>

lemma log10_below:
  assumes "n < 10 ^ k" and "0 < n" and "1 \<le> k" and "k \<le> 13"
  shows "log 10 (real n) \<le> real k - 1 / 2 ^ 48"
proof -
  define c :: real where "c = 1 / 2 ^ 48"
  have l: "ln (10::real) \<le> 9" using ln_le_minus_one [of "10::real"] by simp
  have "1 - 9 * c \<le> 1 + - c * ln 10"
    using l by (simp add: c_def)
  also have "\<dots> \<le> exp (- c * ln 10)" by (rule exp_ge_add_one_self)
  also have "\<dots> = 10 powr (- c)" by (simp add: powr_def mult.commute)
  finally have p: "1 - 9 * c \<le> 10 powr (- c)" .
  have "(10::real) ^ k \<le> 10 ^ 13" using assms(4) by (intro power_increasing) simp_all
  then have "(10::real) ^ k * (9 * c) \<le> 10 ^ 13 * (9 * c)"
    by (intro mult_right_mono) (simp_all add: c_def)
  also have "\<dots> \<le> 1" by (simp add: c_def)
  finally have s: "(10::real) ^ k * (9 * c) \<le> 1" .
  have "n + 1 \<le> 10 ^ k" using assms(1) by simp
  then have "real (n + 1) \<le> real (10 ^ k)" by (simp only: of_nat_le_iff)
  then have "real n \<le> 10 ^ k - 1" by simp
  also have "\<dots> \<le> 10 ^ k - 10 ^ k * (9 * c)" using s by simp
  also have "\<dots> = 10 ^ k * (1 - 9 * c)" by (simp add: algebra_simps)
  also have "\<dots> \<le> 10 ^ k * 10 powr (- c)"
    using p by (intro mult_left_mono) simp_all
  also have "\<dots> = 10 powr (real k - c)"
    by (simp add: powr_diff powr_minus powr_realpow field_simps)
  finally have "real n \<le> 10 powr (real k - c)" .
  then show ?thesis
    using assms(2) by (simp add: log_le_iff c_def)
qed

lemma digits_value:
  assumes "0 < peak" and "peak < 10 ^ 13"
  shows "digits peak = Inr (length (to_string peak))"
proof -
  define k where "k = floorlog 10 peak"
  have small: "peak < 2 ^ 53" "peak < 2 ^ 64" using assms(2) by simp_all
  have P: "of_size_t peak = real peak" using small(1) by (rule of_size_t_exact)
  have k: "k = nat \<lfloor>log 10 (real peak)\<rfloor> + 1"
    using assms(1) by (simp add: k_def floorlog_def)
  have k1: "1 \<le> k" using k by simp
  have k13: "k \<le> 13" unfolding k_def using assms(2) by (simp add: floorlog_le_iff)
  have lt: "peak < 10 ^ k" using floorlog_bounds [of peak 10] assms(1) by (simp add: k_def)
  define z :: real where "z = real k - 1 / 2 ^ 48"
  have "log 10 (real peak) \<le> z"
    unfolding z_def using lt assms(1) k1 k13 by (rule log10_below)
  moreover have "0 \<le> log 10 (real peak)"
    using log10_peak(1) [OF assms(1) small(2)] by (simp add: P)
  ultimately have "rnd (log 10 (real peak)) \<le> rnd z" by (intro rnd_mono)
  moreover have "rnd z = z"
  proof -
    have "int k * 2 ^ 48 - 1 < 13 * 2 ^ 48" using k13 by simp
    then have hi: "int k * 2 ^ 48 - 1 < 2 ^ 53" by simp
    have "1 * 2 ^ 48 \<le> int k * (2 ^ 48 :: int)"
      using k1 by (intro mult_right_mono) simp_all
    then have lo: "0 < int k * 2 ^ 48 - 1" by simp
    have "z = of_int (int k * 2 ^ 48 - 1) * 2 powi (- 48)"
      by (simp add: z_def power_int_minus field_simps)
    then show ?thesis
      using rnd_exact [OF lo hi, of "- 48"] by (simp only:)
  qed
  ultimately have "rnd (log 10 (real peak)) < real k" by (simp add: z_def)
  then have "\<lfloor>rnd (log 10 (real peak))\<rfloor> < int k" by (simp add: floor_less_iff)
  moreover have "\<lfloor>log 10 (real peak)\<rfloor> \<le> \<lfloor>rnd (log 10 (real peak))\<rfloor>"
    using log10_peak(5) [OF assms(1) small(2)] by (simp add: P)
  moreover have "0 \<le> \<lfloor>log 10 (real peak)\<rfloor>"
    using log10_peak(1) [OF assms(1) small(2)] by (simp add: P)
  ultimately have "nat \<lfloor>rnd (log 10 (real peak))\<rfloor> + 1 = k"
    using k by linarith
  then have "digits peak = Inr k"
    using digits_eq [OF assms(1) small(2)] by (simp add: P)
  then show ?thesis
    using assms(1) by (simp add: k_def length_to_string)
qed

section \<open>The error of the rounded bounds\<close>

lemma rne_near: "\<bar>of_int (rne m) - m\<bar> \<le> 1 / 2"
proof -
  define f where "f = \<lfloor>m\<rfloor>"
  define d where "d = m - of_int f"
  have d: "0 \<le> d" "d < 1" unfolding d_def f_def by linarith+
  have r: "rne m = (if d < 1 / 2 then f else if 1 / 2 < d then f + 1
      else if even f then f else f + 1)"
    by (simp add: rne_def Let_def f_def d_def)
  have "\<bar>of_int (rne m) - (of_int f + d)\<bar> \<le> 1 / 2"
    unfolding r using d by (auto simp: abs_if)
  then show ?thesis by (simp add: d_def)
qed

lemma eps_bounds: "0 < eps" "eps < 1"
  by (simp_all add: eps_def)

lemma rnd_err:
  assumes "0 \<le> x"
  shows "x * (1 - eps) \<le> rnd x" and "rnd x \<le> x * (1 + eps)"
proof -
  have "x * (1 - eps) \<le> rnd x \<and> rnd x \<le> x * (1 + eps)"
  proof (cases "x = 0")
    case True
    then show ?thesis by (simp add: rnd_0)
  next
    case False
    with assms have x: "0 < x" by simp
    define s :: real where "s = 2 powi (ilog2 x - 52)"
    define m where "m = x * 2 powi (52 - ilog2 x)"
    have s: "0 < s" by (simp add: s_def)
    have ms: "m * s = x"
      by (simp add: m_def s_def power_int_diff)
    have r: "rnd x = of_int (rne m) * s"
      by (simp only: rnd_pos [OF x] m_def s_def)
    have "rnd x - x = of_int (rne m) * s - m * s"
      by (simp only: r ms)
    also have "\<dots> = (of_int (rne m) - m) * s"
      by (simp add: left_diff_distrib)
    finally have "\<bar>rnd x - x\<bar> = \<bar>of_int (rne m) - m\<bar> * s"
      using s by (simp add: abs_mult)
    also have "\<dots> \<le> 1 / 2 * s"
      using rne_near [of m] s by (intro mult_right_mono) simp_all
    also have "1 / 2 * s = 2 powi ilog2 x * eps"
      by (simp add: s_def eps_def power_int_diff)
    also have "\<dots> \<le> x * eps"
      using ilog2_bounds(1) [OF x] eps_bounds(1) by (intro mult_right_mono) simp_all
    finally have "\<bar>rnd x - x\<bar> \<le> x * eps" .
    then show ?thesis by (simp add: algebra_simps abs_le_iff)
  qed
  then show "x * (1 - eps) \<le> rnd x" and "rnd x \<le> x * (1 + eps)" by simp_all
qed

lemma close_refl: "close 0 a a"
  by (simp add: close_def)

lemma close_nonneg: "0 \<le> a \<Longrightarrow> close k x a \<Longrightarrow> 0 \<le> x"
proof -
  assume a: "0 \<le> a" and c: "close k x a"
  have "0 \<le> (1 - eps) ^ k" using eps_bounds(2) by simp
  with a have "0 \<le> a * (1 - eps) ^ k" by simp
  with c show ?thesis by (simp add: close_def)
qed

lemma close_rnd:
  assumes "0 \<le> a" and "close k x a"
  shows "close (Suc k) (rnd x) a"
proof -
  have x: "0 \<le> x" using assms by (rule close_nonneg)
  have lo: "a * (1 - eps) ^ k \<le> x" and hi: "x \<le> a * (1 + eps) ^ k"
    using assms(2) by (simp_all add: close_def)
  have "a * (1 - eps) ^ k * (1 - eps) \<le> x * (1 - eps)"
    using lo eps_bounds(2) by (intro mult_right_mono) simp_all
  also have "\<dots> \<le> rnd x" using x by (rule rnd_err)
  finally have 1: "a * (1 - eps) ^ Suc k \<le> rnd x" by (simp add: mult_ac)
  have "rnd x \<le> x * (1 + eps)" using x by (rule rnd_err)
  also have "\<dots> \<le> a * (1 + eps) ^ k * (1 + eps)"
    using hi eps_bounds(1) by (intro mult_right_mono) simp_all
  finally have 2: "rnd x \<le> a * (1 + eps) ^ Suc k" by (simp add: mult_ac)
  from 1 2 show ?thesis by (simp only: close_def)
qed

lemma close_mult:
  assumes "0 \<le> c" and "close k x a"
  shows "close k (x * c) (a * c)"
proof -
  have lo: "a * (1 - eps) ^ k \<le> x" and hi: "x \<le> a * (1 + eps) ^ k"
    using assms(2) by (simp_all add: close_def)
  have "a * (1 - eps) ^ k * c \<le> x * c" using lo assms(1) by (rule mult_right_mono)
  moreover have "x * c \<le> a * (1 + eps) ^ k * c" using hi assms(1) by (rule mult_right_mono)
  ultimately show ?thesis by (simp add: close_def mult_ac)
qed

lemma close_add:
  assumes "close k x a" and "close k y b"
  shows "close k (x + y) (a + b)"
  using assms by (simp add: close_def distrib_right) 

text \<open>
  The bounds of a row against the real numbers \<open>r / rows * peak\<close> and
  \<open>(r + 1) / rows * peak\<close>, for operands that convert to \<open>double\<close> as they are.
\<close>

lemma scaled_close:
  assumes "a < 2 ^ 53" and "rows < 2 ^ 53" and "peak < 2 ^ 53"
  shows "close 2 (fmul (fdiv (of_size_t a) (of_size_t rows)) (of_size_t peak))
    (real a / real rows * real peak)"
proof -
  have e: "of_size_t a = real a" "of_size_t rows = real rows" "of_size_t peak = real peak"
    using assms by (simp_all add: of_size_t_exact)
  have q: "0 \<le> real a / real rows" by simp
  have "close (Suc 0) (rnd (real a / real rows)) (real a / real rows)"
    using q close_refl by (rule close_rnd)
  then have "close (Suc 0) (rnd (real a / real rows) * real peak) (real a / real rows * real peak)"
    by (intro close_mult) simp_all
  then have "close (Suc (Suc 0)) (rnd (rnd (real a / real rows) * real peak))
      (real a / real rows * real peak)"
    by (intro close_rnd) simp_all
  then show ?thesis
    by (simp add: fmul_def fdiv_def e numeral_2_eq_2)
qed

lemma rowFloor_close:
  assumes "r < rows" and "rows < 2 ^ 53" and "peak < 2 ^ 53"
  shows "close 2 (rowFloor r rows peak) (real r / real rows * real peak)"
  unfolding rowFloor_def using assms by (intro scaled_close) simp_all

lemma rowCeil_close:
  assumes "r < rows" and "rows < 2 ^ 53" and "peak < 2 ^ 53"
  shows "close 2 (rowCeil r rows peak) (real (r + 1) / real rows * real peak)"
  unfolding rowCeil_def using assms by (intro scaled_close) simp_all

lemma middle_close:
  assumes "r < rows" and "rows < 2 ^ 53" and "peak < 2 ^ 53"
  shows "close 4 (middle r rows peak)
    (1 / 2 * (real r / real rows * real peak + real (r + 1) / real rows * real peak))"
proof -
  define A where "A = real r / real rows * real peak"
  define B where "B = real (r + 1) / real rows * real peak"
  have n: "0 \<le> A + B" by (simp add: A_def B_def)
  have "close 2 (rowFloor r rows peak + rowCeil r rows peak) (A + B)"
    unfolding A_def B_def using rowFloor_close [OF assms] rowCeil_close [OF assms]
    by (rule close_add)
  with n have "close (Suc 2) (rnd (rowFloor r rows peak + rowCeil r rows peak)) (A + B)"
    by (rule close_rnd)
  then have "close (Suc 2) (rnd (rowFloor r rows peak + rowCeil r rows peak) * (1 / 2))
      ((A + B) * (1 / 2))"
    by (intro close_mult) simp_all
  then have "close (Suc 2) (1 / 2 * rnd (rowFloor r rows peak + rowCeil r rows peak))
      (1 / 2 * (A + B))"
    by (simp add: mult.commute)
  moreover have "0 \<le> 1 / 2 * (A + B)" using n by simp
  ultimately have "close (Suc (Suc 2))
      (rnd (1 / 2 * rnd (rowFloor r rows peak + rowCeil r rows peak))) (1 / 2 * (A + B))"
    by (intro close_rnd)
  then show ?thesis
    by (simp add: middle_def fmul_def fadd_def A_def B_def eval_nat_numeral)
qed

section \<open>The rows\<close>

text \<open>
  The conditions under which no row fails: the width of the tick column is at
  least 1 and has room for the decimal digits of the peak, and the peak, as a
  double, is below \<open>2 ^ 64\<close>. The width that line 98 computes meets the first two
  whenever it is defined (lemma \<open>digits_width\<close>).
\<close>

lemma tick_value_ok:
  assumes "r < rows" and "of_size_t peak < 2 ^ 64"
  shows "tick_value r rows peak = Inr (nat \<lfloor>middle r rows peak\<rfloor>)"
    and "real (nat \<lfloor>middle r rows peak\<rfloor>) \<le> of_size_t peak"
proof -
  have m: "0 \<le> middle r rows peak" "middle r rows peak \<le> of_size_t peak"
    using middle_bounds [OF assms(1), of peak] by simp_all
  with assms(2) have "- 1 < middle r rows peak" "middle r rows peak < 2 ^ 64" by linarith+
  then show "tick_value r rows peak = Inr (nat \<lfloor>middle r rows peak\<rfloor>)"
    by (simp add: tick_value_def)
  have "real (nat \<lfloor>middle r rows peak\<rfloor>) \<le> middle r rows peak" using m(1) by simp
  with m(2) show "real (nat \<lfloor>middle r rows peak\<rfloor>) \<le> of_size_t peak"
    by simp
qed

lemma label_fits:
  assumes "real v \<le> of_size_t peak" and "of_size_t peak < 10 ^ width" and "1 \<le> width"
  shows "length (to_string v) \<le> width"
proof -
  from assms(1,2) have "real v < 10 ^ width" by linarith
  then have "real v < real (10 ^ width)" by simp
  then have "v < 10 ^ width" by (simp only: of_nat_less_iff)
  with assms(3) show ?thesis by (intro length_to_string_le) simp_all
qed

text \<open>The tick column of a row with a tick, for a width with room for the peak.\<close>

lemma tickStr_label:
  assumes "r < rows" and "1 \<le> tickStride" and "(rows - 1 - r) mod tickStride = 0"
    and "1 \<le> width" and "of_size_t peak < 10 ^ width" and "of_size_t peak < 2 ^ 64"
  shows "tickStr width rows tickStride peak r =
      Inr (replicate (width - length (to_string (nat \<lfloor>middle r rows peak\<rfloor>))) CHR '' '' @
           to_string (nat \<lfloor>middle r rows peak\<rfloor>)) \<and>
    length (to_string (nat \<lfloor>middle r rows peak\<rfloor>)) \<le> width"
proof -
  define v where "v = nat \<lfloor>middle r rows peak\<rfloor>"
  have tv: "tick_value r rows peak = Inr v" and le: "real v \<le> of_size_t peak"
    using tick_value_ok [OF assms(1,6)] by (simp_all add: v_def)
  have fit: "length (to_string v) \<le> width"
    using le assms(5,4) by (rule label_fits)
  have "tickStr width rows tickStride peak r =
      Inr (replicate (width - length (to_string v)) CHR '' '' @ to_string v)"
    using assms(2,3) tv fit by (simp add: tickStr_def drawTick_def pad_left_def)
  with fit show ?thesis by (simp only: v_def)
qed

lemma tick_blank:
  assumes "1 \<le> tickStride" and "(rows - 1 - r) mod tickStride \<noteq> 0"
  shows "tickStr width rows tickStride peak r = Inr (replicate width CHR '' '')"
  using assms by (simp add: tickStr_def drawTick_def pad_left_def)

lemma tickStr_ok:
  assumes "r < rows" and "1 \<le> tickStride"
    and "1 \<le> width" and "of_size_t peak < 10 ^ width" and "of_size_t peak < 2 ^ 64"
  shows "\<exists>t. tickStr width rows tickStride peak r = Inr t \<and> length t = width"
proof (cases "(rows - 1 - r) mod tickStride = 0")
  case True
  define v where "v = nat \<lfloor>middle r rows peak\<rfloor>"
  have tv: "tick_value r rows peak = Inr v" and le: "real v \<le> of_size_t peak"
    using tick_value_ok [OF assms(1,5)] by (simp_all add: v_def)
  have fit: "length (to_string v) \<le> width"
    using le assms(4,3) by (rule label_fits)
  then show ?thesis
    using assms(2) True tv by (simp add: tickStr_def drawTick_def pad_left_def)
next
  case False
  with assms(2) show ?thesis by (simp add: tick_blank)
qed



lemma rowFloor_mono:
  assumes "r' \<le> r" and "r < rows"
  shows "rowFloor r' rows peak \<le> rowFloor r rows peak"
proof -
  have p: "0 < of_size_t rows" using of_size_t_ge_1 [of rows] assms(2) by simp
  have "of_size_t r' / of_size_t rows \<le> of_size_t r / of_size_t rows"
    using of_size_t_mono [OF assms(1)] p by (simp add: divide_right_mono)
  moreover have "0 \<le> of_size_t r' / of_size_t rows"
    using of_size_t_nonneg [of r'] p by simp
  ultimately have q: "fdiv (of_size_t r') (of_size_t rows) \<le> fdiv (of_size_t r) (of_size_t rows)"
    unfolding fdiv_def by (intro rnd_mono)
  have n: "0 \<le> fdiv (of_size_t r') (of_size_t rows)"
    using fdiv_bounds(1) [of r' rows] assms by simp
  have "fdiv (of_size_t r') (of_size_t rows) * of_size_t peak
      \<le> fdiv (of_size_t r) (of_size_t rows) * of_size_t peak"
    using q of_size_t_nonneg [of peak] by (rule mult_right_mono)
  moreover have "0 \<le> fdiv (of_size_t r') (of_size_t rows) * of_size_t peak"
    using n of_size_t_nonneg [of peak] by simp
  ultimately show ?thesis
    unfolding rowFloor_def fmul_def by (intro rnd_mono)
qed

lemma length_alphabet: "length alphabet = 26"
  by (simp add: alphabet_def)

lemma bars_nth:
  "j < 26 \<Longrightarrow> bars hist f ! j =
     (if f < of_size_t (bin hist (alphabet ! j)) then CHR ''*'' else CHR '' '')"
  by (simp add: bars_def length_alphabet)

text \<open>
  Claim C8. A count \<open>k\<close> that is above the \<open>rowFloor\<close> of row \<open>r\<close> is above that of
  every row below it, since \<open>rowFloor\<close> does not decrease with \<open>r\<close>, in doubles as
  in the reals: the rows in which a marker is filled are the rows from the bottom
  up to some row.
\<close>

theorem filled_rows_contiguous:
  assumes "r < rows" and "r' < r"
  shows "(rowFloor r rows peak < of_size_t k \<longrightarrow> rowFloor r' rows peak < of_size_t k) \<and>
    (\<forall>j<26. bars hist (rowFloor r rows peak) ! j = CHR ''*'' \<longrightarrow>
       bars hist (rowFloor r' rows peak) ! j = CHR ''*'')"
proof -
  have m: "rowFloor r' rows peak \<le> rowFloor r rows peak"
    using assms by (intro rowFloor_mono) simp_all
  then have "rowFloor r' rows peak < of_size_t k" if "rowFloor r rows peak < of_size_t k" for k
    using that by linarith
  then show ?thesis
    by (auto simp: bars_nth split: if_splits)
qed

text \<open>
  Row 57 of 100 for the peak 100: in doubles \<open>57 / 100 * 100\<close> is below 57, so a
  count of 57 is above the \<open>rowFloor\<close> of its own row, and of row 56.
\<close>

theorem filled_rows_contiguous_witness:
  "rowFloor 57 100 100 < of_size_t 57 \<and> rowFloor 56 100 100 < of_size_t 57"
proof -
  have a: "rowFloor 57 100 100 < of_size_t 57"
    by code_simp
  from filled_rows_contiguous [of 57 100 56 100 57] a show ?thesis
    by simp
qed

lemma rowFloor_rounds: "rowFloor 57 100 100 = 57 - 1 / 2 ^ 47"
  by code_simp

lemma row_ok:
  assumes "r < rows" and "1 \<le> tickStride"
    and "1 \<le> width" and "of_size_t peak < 10 ^ width" and "of_size_t peak < 2 ^ 64"
  shows "\<exists>t. tickStr width rows tickStride peak r = Inr t \<and> length t = width \<and>
    row width hist rows tickStride peak r = Inr (t @ ''|'' @ bars hist (rowFloor r rows peak))"
proof -
  from tickStr_ok [OF assms] obtain t
    where "tickStr width rows tickStride peak r = Inr t" "length t = width" by blast
  then show ?thesis by (simp add: row_def)
qed

lemma draw_rows_ok:
  assumes "1 \<le> tickStride"
    and "1 \<le> width" and "of_size_t peak < 10 ^ width" and "of_size_t peak < 2 ^ 64"
  shows "n \<le> rows \<Longrightarrow>
    \<exists>ls. draw_rows width hist rows tickStride peak n = (ls, None) \<and> length ls = n \<and>
      (\<forall>i<n. row width hist rows tickStride peak (n - 1 - i) = Inr (ls ! i))"
proof (induction n)
  case 0
  show ?case by simp
next
  case (Suc n)
  then have n: "n < rows" by simp
  from row_ok [OF n assms, of hist] obtain l
    where l: "row width hist rows tickStride peak n = Inr l" by blast
  from Suc obtain ls where ls: "draw_rows width hist rows tickStride peak n = (ls, None)"
    "length ls = n" "\<And>i. i < n \<Longrightarrow> row width hist rows tickStride peak (n - 1 - i) = Inr (ls ! i)"
    by auto
  have "row width hist rows tickStride peak (Suc n - 1 - i) = Inr ((l # ls) ! i)"
    if "i < Suc n" for i
  proof (cases i)
    case 0
    with l show ?thesis by simp
  next
    case (Suc i')
    with that ls(3) [of i'] show ?thesis by simp
  qed
  with l ls(1,2) show ?case by simp
qed

text \<open>The lines of the loop, top row first, for a width with room for the peak.\<close>

lemma draw_rows_lines:
  assumes "1 \<le> tickStride"
    and "1 \<le> width" and "of_size_t peak < 10 ^ width" and "of_size_t peak < 2 ^ 64"
  shows "\<exists>ls. draw_rows width hist rows tickStride peak rows = (ls, None) \<and> length ls = rows \<and>
    (\<forall>i<rows. \<exists>t. tickStr width rows tickStride peak (rows - 1 - i) = Inr t \<and>
       length t = width \<and>
       ls ! i = t @ ''|'' @
         map (\<lambda>c. if rowFloor (rows - 1 - i) rows peak < of_size_t (bin hist c)
                  then CHR ''*'' else CHR '' '') lower_case)"
proof -
  from draw_rows_ok [OF assms, of rows rows hist] obtain ls
    where ls: "draw_rows width hist rows tickStride peak rows = (ls, None)" "length ls = rows"
      "\<And>i. i < rows \<Longrightarrow> row width hist rows tickStride peak (rows - 1 - i) = Inr (ls ! i)"
    by auto
  have "\<exists>t. tickStr width rows tickStride peak (rows - 1 - i) = Inr t \<and>
       length t = width \<and>
       ls ! i = t @ ''|'' @
         map (\<lambda>c. if rowFloor (rows - 1 - i) rows peak < of_size_t (bin hist c)
                  then CHR ''*'' else CHR '' '') lower_case"
    if "i < rows" for i
  proof -
    from that have r: "rows - 1 - i < rows" by simp
    from row_ok [OF r assms, of hist] ls(3) [OF that] show ?thesis
      by (auto simp: bars_def alphabet_eq)
  qed
  with ls(1,2) show ?thesis by blast
qed

text \<open>
  The text \<open>aabbbccccc\<close>, whose peak is 5, in 4 rows with a tick every 2 rows and
  a tick column of width 1, which is the width that line 98 computes for 5.
\<close>

lemma draw_rows_example:
  "draw_rows 1 (fst (count_letters ''aabbbccccc'')) 4 2 5 4 =
    ([''4|  *                       '',
      '' | **                       '',
      ''1|***                       '',
      '' |***                       ''], None)"
  by code_simp

lemma core_example:
  "core ''aabbbccccc'' 4 2 =
    ([''4|  *                       '',
      '' | **                       '',
      ''1|***                       '',
      '' |***                       '',
      '' +--------------------------'',
      '' |abcdefghijklmnopqrstuvwxyz''], Exit 0)"
proof -
  have p: "snd (count_letters ''aabbbccccc'') = 5"
    by code_simp
  have d: "digits 5 = Inr 1"
    using digits_value [of 5] by (simp add: to_string.simps [of 5])
  have f: "footer 1 = ['' +--------------------------'', '' |abcdefghijklmnopqrstuvwxyz'']"
    by (simp add: footer_def alphabet_eq lower_case_def)
  obtain hist peak where c: "count_letters ''aabbbccccc'' = (hist, peak)"
    by (cases "count_letters ''aabbbccccc''")
  with p draw_rows_example have "peak = 5"
    and "draw_rows 1 hist 4 2 5 4 =
    ([''4|  *                       '',
      '' | **                       '',
      ''1|***                       '',
      '' |***                       ''], None)"
    by simp_all
  then show ?thesis
    using f by (simp add: core_def c d)
qed

lemma rowFloor_peak_0: "rowFloor r rows 0 = 0"
  by (simp add: rowFloor_def fmul_def of_size_t_0 rnd_0)

lemma bars_blank:
  assumes "\<And>c. bin hist c = 0"
  shows "bars hist 0 = replicate 26 CHR '' ''"
proof -
  have "bars hist 0 = map (\<lambda>c. CHR '' '') alphabet"
    by (simp add: bars_def assms of_size_t_0)
  then show ?thesis
    by (simp add: map_replicate_const length_alphabet)
qed

lemma peak_0_bins:
  assumes "snd (count_letters input) = 0"
  shows "bin (fst (count_letters input)) c = 0"
proof -
  have "counted (count_letters input)"
    unfolding count_letters_def using counted_init by (rule counted_loop)
  then have "bin (fst (count_letters input)) c \<le> snd (count_letters input)"
    by (cases "count_letters input") (simp add: counted_def)
  with assms show ?thesis by simp
qed

text \<open>
  Lines 103 and 120 for a peak of 0: the \<open>rowFloor\<close> of every row is the double 0
  and no count is above it.
\<close>

lemma blank_markers_for_peak_0:
  assumes "snd (count_letters input) = 0"
  shows "rowFloor r rows (snd (count_letters input)) = 0 \<and>
    bars (fst (count_letters input)) (rowFloor r rows (snd (count_letters input))) =
      replicate 26 CHR '' ''"
  using bars_blank [OF peak_0_bins [OF assms]] by (simp add: assms rowFloor_peak_0)

text \<open>
  Claim C1 fails on the code for the peak 0. Line 98 has no case for it: \<open>log10\<close>
  of 0 is minus infinity, which no \<open>size_t\<close> represents, so the conversion is
  undefined and the run of the histogram on a text without letters stops there.
  (Lemma \<open>digits_value\<close> is the rest of the claim: the number of decimal digits
  for a peak from 1 and below \<open>10 ^ 13\<close>.)
\<close>

theorem digits_undefined_for_peak_0:
  "snd (count_letters []) = 0 \<and>
   digits (snd (count_letters [])) = Inl Undefined_behaviour \<and>
   core [] 10 3 = ([], Abort Undefined_behaviour)"
  by (simp add: count_letters_def core_def digits_0)

section \<open>The whole histogram\<close>

text \<open>
  For a text with a letter, a peak below \<open>2 ^ 53\<close> and a stride of at least 1 the
  histogram is drawn to its end: \<open>rows\<close> lines and the two lines under them.
\<close>

lemma core_total:
  assumes "snd (count_letters input) \<noteq> 0" and "snd (count_letters input) < 2 ^ 53"
    and "1 \<le> tickStride"
  shows "\<exists>ls d. digits (snd (count_letters input)) = Inr d \<and> length ls = rows \<and>
    core input rows tickStride = (ls @ footer d, Exit 0)"
proof -
  obtain hist peak where c: "count_letters input = (hist, peak)"
    by (cases "count_letters input")
  with assms have p: "0 < peak" "peak < 2 ^ 53" by simp_all
  then have p64: "peak < 2 ^ 64" by simp
  from digits_defined [OF p(1) p64] obtain d where d: "digits peak = Inr d" by blast
  have "of_size_t peak < real (2 ^ 53)"
    using p(2) by (simp only: of_size_t_exact of_nat_less_iff)
  then have "of_size_t peak < 2 ^ 64" by simp
  from draw_rows_ok [OF assms(3) digits_width [OF d p64] this, of rows rows hist]
  obtain ls where "draw_rows d hist rows tickStride peak rows = (ls, None)" "length ls = rows"
    by auto
  with d show ?thesis by (simp add: core_def c)
qed

text \<open>
  With \<open>-s 0\<close> the run reaches line 108 with a stride of 0, and the remainder by 0
  is undefined.
\<close>

lemma stride_0_undefined:
  "ended (main_prog one_file [''histogrammer'', ''in.txt'', ''-s'', ''0'']) =
     Abort Undefined_behaviour"
proof -
  have p: "snd (count_letters ''aabbbccccc'') = 5"
    by code_simp
  have d: "digits 5 = Inr 1"
    using digits_value [of 5] by (simp add: to_string.simps [of 5])
  obtain hist peak where c: "count_letters ''aabbbccccc'' = (hist, peak)"
    by (cases "count_letters ''aabbbccccc''")
  with p have peak: "peak = 5" by simp
  have "draw_rows 1 hist 10 0 5 (Suc 9) = ([], Some Undefined_behaviour)"
    by (simp only: draw_rows.simps row_def tickStr_def drawTick_def) simp
  then have "core ''aabbbccccc'' 10 0 = ([], Abort Undefined_behaviour)"
    by (simp add: core_def c peak d)
  then show ?thesis
    by (simp add: main_prog_def one_file_def parseParam_def from_chars_def isdigit_def
        decimal_value_def Let_def)
qed

section \<open>The rounded bounds against the real ones\<close>

lemma eps_powers:
  "(1 + eps) ^ 2 \<le> 1 + 3 * eps" "1 - 2 * eps \<le> (1 - eps) ^ 2"
  "(1 + eps) ^ 4 \<le> 1 + 5 * eps" "1 - 4 * eps \<le> (1 - eps) ^ 4"
  by (simp_all add: eps_def power_divide)

lemma eps_scaled:
  assumes "n < 2 ^ 50"
  shows "5 * eps * real n < 1"
proof -
  have "real n < real (2 ^ 50)" using assms by (simp only: of_nat_less_iff)
  then have "real n < 2 ^ 50" by simp
  then have "5 * eps * real n < 5 * eps * 2 ^ 50"
    using eps_bounds(1) by (intro mult_strict_left_mono) simp_all
  also have "\<dots> < 1" by (simp add: eps_def)
  finally show ?thesis .
qed

lemma factors_below:
  fixes a b n :: nat
  assumes "0 < a" and "0 < b" and "a * b < n"
  shows "a < n" and "b < n"
proof -
  have "a \<le> a * b" using assms(2) by (cases b) auto
  moreover have "b \<le> a * b" using assms(1) by (cases a) auto
  ultimately show "a < n" and "b < n" using assms(3) by linarith+
qed

text \<open>
  A count \<open>k\<close> against the \<open>rowFloor\<close> of a row: unless \<open>k\<close> is \<open>r / rows * peak\<close>
  itself, the double \<open>rowFloor\<close> is on the same side of \<open>k\<close> as the real number.
\<close>

lemma rowFloor_vs_real:
  assumes "r < rows" and "0 < peak" and "rows * peak < 2 ^ 51"
  shows "r * peak < k * rows \<Longrightarrow> rowFloor r rows peak < real k"
    and "k * rows < r * peak \<Longrightarrow> real k < rowFloor r rows peak"
proof -
  define R where "R = real rows"
  define X where "X = real (r * peak)"
  define E where "E = real r / real rows * real peak"
  define f where "f = rowFloor r rows peak"
  have R: "0 < R" using assms(1) by (simp add: R_def)
  have X: "0 \<le> X" by (simp add: X_def)
  have E: "0 \<le> E" "E * R = X" using assms(1) by (simp_all add: E_def R_def X_def)
  have rp: "0 < rows" using assms(1) by simp
  have rows: "rows < 2 ^ 51" and peak: "peak < 2 ^ 51"
    using factors_below [OF rp assms(2,3)] by simp_all
  have "r * peak \<le> rows * peak" using assms(1) by (intro mult_le_mono1) simp
  then have "r * peak < 2 ^ 51" using assms(3) by (rule le_less_trans)
  then have "real (r * peak) < real (2 ^ 51)" by (simp only: of_nat_less_iff)
  then have "X < 2 ^ 50 * 2" by (simp add: X_def)
  then have "3 * eps * X < 3 * eps * (2 ^ 50 * 2)"
    using eps_bounds(1) by (intro mult_strict_left_mono) simp_all
  also have "\<dots> < 1" by (simp add: eps_def)
  finally have small: "3 * eps * X < 1" .
  have "close 2 f E"
    unfolding f_def E_def using assms(1) rows peak by (intro rowFloor_close) simp_all
  then have lo: "E * (1 - eps) ^ 2 \<le> f" and hi: "f \<le> E * (1 + eps) ^ 2"
    by (simp_all add: close_def)
  have "E * (1 + eps) ^ 2 \<le> E * (1 + 3 * eps)"
    using E(1) eps_powers(1) by (rule mult_left_mono [rotated])
  with hi have "f \<le> E * (1 + 3 * eps)" by linarith
  then have "f * R \<le> E * (1 + 3 * eps) * R"
    using R by (intro mult_right_mono) simp_all
  also have "\<dots> = X + 3 * eps * X"
    by (simp add: E(2) [symmetric] algebra_simps)
  finally have up: "f * R < X + 1" using small by linarith
  have "E * (1 - 2 * eps) \<le> E * (1 - eps) ^ 2"
    using E(1) eps_powers(2) by (rule mult_left_mono [rotated])
  with lo have "E * (1 - 2 * eps) \<le> f" by linarith
  then have "E * (1 - 2 * eps) * R \<le> f * R"
    using R by (intro mult_right_mono) simp_all
  moreover have "E * (1 - 2 * eps) * R = X - 2 * eps * X"
    by (simp add: E(2) [symmetric] algebra_simps)
  moreover have "2 * eps * X \<le> 3 * eps * X" using X eps_bounds(1) by simp
  ultimately have down: "X - 1 < f * R" using small by linarith
  show "rowFloor r rows peak < real k" if "r * peak < k * rows"
  proof -
    from that have "r * peak + 1 \<le> k * rows" by simp
    then have "real (r * peak + 1) \<le> real (k * rows)" by (simp only: of_nat_le_iff)
    then have "X + 1 \<le> real k * R" by (simp add: X_def R_def)
    with up have "f * R < real k * R" by linarith
    with R show ?thesis by (simp add: f_def)
  qed
  show "real k < rowFloor r rows peak" if "k * rows < r * peak"
  proof -
    from that have "k * rows + 1 \<le> r * peak" by simp
    then have "real (k * rows + 1) \<le> real (r * peak)" by (simp only: of_nat_le_iff)
    then have "real k * R \<le> X - 1" by (simp add: X_def R_def)
    with down have "real k * R < f * R" by linarith
    with R show ?thesis by (simp add: f_def)
  qed
qed

text \<open>
  The label of a row against the floor of the real middle of its range: they are
  equal unless the real middle is an integer, and then the label is that integer or
  the one below it.
\<close>

lemma middle_vs_real:
  assumes "r < rows" and "0 < peak" and "rows * peak < 2 ^ 49"
  shows "\<lfloor>1 / 2 * (real r / real rows * real peak + real (r + 1) / real rows * real peak)\<rfloor> - 1
      \<le> \<lfloor>middle r rows peak\<rfloor>"
    and "\<lfloor>middle r rows peak\<rfloor>
      \<le> \<lfloor>1 / 2 * (real r / real rows * real peak + real (r + 1) / real rows * real peak)\<rfloor>"
    and "1 / 2 * (real r / real rows * real peak + real (r + 1) / real rows * real peak) \<notin> \<int> \<Longrightarrow>
      \<lfloor>middle r rows peak\<rfloor> =
      \<lfloor>1 / 2 * (real r / real rows * real peak + real (r + 1) / real rows * real peak)\<rfloor>"
proof -
  define M where
    "M = 1 / 2 * (real r / real rows * real peak + real (r + 1) / real rows * real peak)"
  define Z where "Z = (2 * r + 1) * peak"
  define D where "D = 2 * rows"
  define m where "m = middle r rows peak"
  define j where "j = \<lfloor>M\<rfloor>"
  have D: "0 < D" "1 \<le> real D" using assms(1) by (simp_all add: D_def)
  have MZ: "M = real Z / real D"
    using assms(1) by (simp add: M_def Z_def D_def field_simps)
  then have MD: "M * real D = real Z" using D(1) by simp
  have M0: "0 \<le> M" by (simp add: M_def)
  have rp: "0 < rows" using assms(1) by simp
  have "rows < 2 ^ 49" and "peak < 2 ^ 49"
    using factors_below [OF rp assms(2,3)] by simp_all
  then have rows: "rows < 2 ^ 53" and peak: "peak < 2 ^ 53" by simp_all
  have "2 * r + 1 \<le> 2 * rows" using assms(1) by simp
  then have "Z \<le> 2 * rows * peak" unfolding Z_def by (intro mult_le_mono1)
  moreover have "2 * rows * peak < 2 ^ 50" using assms(3) by (simp add: mult.commute)
  ultimately have "Z < 2 ^ 50" by (rule le_less_trans)
  then have small: "5 * eps * real Z < 1" by (rule eps_scaled)
  have "close 4 m M"
    unfolding m_def M_def using assms(1) rows peak by (rule middle_close)
  then have lo: "M * (1 - eps) ^ 4 \<le> m" and hi: "m \<le> M * (1 + eps) ^ 4"
    by (simp_all add: close_def)
  have "M * (1 + eps) ^ 4 \<le> M * (1 + 5 * eps)"
    using M0 eps_powers(3) by (rule mult_left_mono [rotated])
  with hi have "m \<le> M * (1 + 5 * eps)" by linarith
  then have "m * real D \<le> M * (1 + 5 * eps) * real D"
    using D(1) by (intro mult_right_mono) simp_all
  also have "\<dots> = real Z + 5 * eps * real Z"
    by (simp add: MD [symmetric] algebra_simps)
  finally have up: "m * real D < real Z + 1" using small by linarith
  have "M * (1 - 4 * eps) \<le> M * (1 - eps) ^ 4"
    using M0 eps_powers(4) by (rule mult_left_mono [rotated])
  with lo have "M * (1 - 4 * eps) \<le> m" by linarith
  then have "M * (1 - 4 * eps) * real D \<le> m * real D"
    using D(1) by (intro mult_right_mono) simp_all
  moreover have "M * (1 - 4 * eps) * real D = real Z - 4 * eps * real Z"
    by (simp add: MD [symmetric] algebra_simps)
  moreover have "4 * eps * real Z \<le> 5 * eps * real Z" using eps_bounds(1) by simp
  ultimately have down: "real Z - 1 < m * real D" using small by linarith
  have jM: "of_int j \<le> M" "M < of_int j + 1" unfolding j_def by linarith+
  have jD: "of_int j * real D \<le> real Z"
    using jM(1) D(1) MD by (metis mult_right_mono of_nat_0_le_iff)
  have "real Z < (of_int j + 1) * real D"
    using jM(2) D(1) MD by (metis mult_strict_right_mono of_nat_0_less_iff)
  then have "real_of_int (int Z) < real_of_int ((j + 1) * int D)" by simp
  then have "int Z < (j + 1) * int D" by (simp only: of_int_less_iff)
  then have "int Z + 1 \<le> (j + 1) * int D" by simp
  then have "real_of_int (int Z + 1) \<le> real_of_int ((j + 1) * int D)" by (simp only: of_int_le_iff)
  then have "real Z + 1 \<le> (of_int j + 1) * real D" by simp
  with up have "m * real D < (of_int j + 1) * real D" by linarith
  with D(1) have "m < of_int j + 1" by simp
  then have "m < of_int (j + 1)" by simp
  then have "\<lfloor>m\<rfloor> < j + 1" by (simp only: floor_less_iff)
  then show 2: "\<lfloor>middle r rows peak\<rfloor>
      \<le> \<lfloor>1 / 2 * (real r / real rows * real peak + real (r + 1) / real rows * real peak)\<rfloor>"
    unfolding m_def [symmetric] M_def [symmetric] j_def [symmetric]
    by simp
  have "of_int j * real D - 1 < m * real D" using jD down by linarith
  moreover have "(of_int j - 1) * real D \<le> of_int j * real D - 1"
    using D(2) by (simp add: algebra_simps)
  ultimately have "(of_int j - 1) * real D < m * real D" by linarith
  with D(1) have "of_int j - 1 < m" by simp
  then have "of_int (j - 1) \<le> m" by simp
  then show "\<lfloor>1 / 2 * (real r / real rows * real peak + real (r + 1) / real rows * real peak)\<rfloor> - 1
      \<le> \<lfloor>middle r rows peak\<rfloor>"
    unfolding m_def [symmetric] M_def [symmetric] j_def [symmetric]
    by (simp only: le_floor_iff)
  show "\<lfloor>middle r rows peak\<rfloor> =
      \<lfloor>1 / 2 * (real r / real rows * real peak + real (r + 1) / real rows * real peak)\<rfloor>"
    if "1 / 2 * (real r / real rows * real peak + real (r + 1) / real rows * real peak) \<notin> \<int>"
  proof -
    from that have "M \<noteq> of_int j" unfolding M_def [symmetric] by (metis Ints_of_int)
    with jM(1) have "of_int j < M" by simp
    then have "of_int j * real D < real Z"
      using D(1) MD by (metis mult_strict_right_mono of_nat_0_less_iff)
    then have "real_of_int (j * int D) < real_of_int (int Z)" by simp
    then have "j * int D < int Z" by (simp only: of_int_less_iff)
    then have "j * int D \<le> int Z - 1" by simp
    then have "real_of_int (j * int D) \<le> real_of_int (int Z - 1)" by (simp only: of_int_le_iff)
    then have "of_int j * real D \<le> real Z - 1" by simp
    with down have "of_int j * real D < m * real D" by linarith
    with D(1) have "of_int j \<le> m" by simp
    then have "j \<le> \<lfloor>m\<rfloor>" by (simp only: le_floor_iff)
    with 2 show ?thesis
      unfolding m_def [symmetric] M_def [symmetric] j_def [symmetric] by simp
  qed
qed

section \<open>The histogram of a text with a letter\<close>

text \<open>
  For a text with a letter and a stride of at least 1 the run gets to the end of
  the histogram: line 98 gives a width, the loop prints one line for each row, the
  line of row \<open>rows - 1\<close> first, and the two lines of the axis follow.
\<close>

lemma core_lines:
  assumes "count_letters input = (hist, peak)" and "0 < peak" and "peak < 2 ^ 53"
    and "1 \<le> tickStride"
  shows "\<exists>ls width. digits peak = Inr width \<and>
    core input rows tickStride = (ls @ footer width, Exit 0) \<and> length ls = rows \<and>
    (\<forall>r<rows. \<exists>t. tickStr width rows tickStride peak r = Inr t \<and> length t = width \<and>
       ls ! (rows - 1 - r) = t @ ''|'' @ bars hist (rowFloor r rows peak))"
proof -
  have p64: "peak < 2 ^ 64" using assms(3) by simp
  from digits_defined [OF assms(2) p64] obtain width where d: "digits peak = Inr width"
    by blast
  have "of_size_t peak < real (2 ^ 53)"
    using assms(3) by (simp only: of_size_t_exact of_nat_less_iff)
  then have P: "of_size_t peak < 2 ^ 64" by simp
  note w = digits_width [OF d p64]
  from draw_rows_ok [OF assms(4) w P, of rows rows hist] obtain ls
    where ls: "draw_rows width hist rows tickStride peak rows = (ls, None)" "length ls = rows"
      "\<And>i. i < rows \<Longrightarrow> row width hist rows tickStride peak (rows - 1 - i) = Inr (ls ! i)"
    by auto
  have "\<exists>t. tickStr width rows tickStride peak r = Inr t \<and> length t = width \<and>
       ls ! (rows - 1 - r) = t @ ''|'' @ bars hist (rowFloor r rows peak)"
    if r: "r < rows" for r
  proof -
    from r have "rows - 1 - r < rows" and "rows - 1 - (rows - 1 - r) = r" by simp_all
    with ls(3) [of "rows - 1 - r"]
    have "row width hist rows tickStride peak r = Inr (ls ! (rows - 1 - r))" by simp
    with row_ok [OF r assms(4) w P, of hist] show ?thesis by auto
  qed
  moreover have "core input rows tickStride = (ls @ footer width, Exit 0)"
    using ls(1) d by (simp add: core_def assms(1))
  ultimately show ?thesis using d ls(2) by blast
qed

lemma bin_le_peak:
  assumes "count_letters input = (hist, peak)"
  shows "bin hist c \<le> peak"
proof -
  have "counted (count_letters input)"
    unfolding count_letters_def using counted_init by (rule counted_loop)
  then show ?thesis by (simp add: assms counted_def)
qed

text \<open>
  With a peak of 0 line 98 is undefined, and the run prints no line of the
  histogram.
\<close>

lemma core_peak_0:
  assumes "snd (count_letters input) = 0"
  shows "core input rows tickStride = ([], Abort Undefined_behaviour)"
  using assms by (cases "count_letters input") (simp add: core_def digits_0)

text \<open>The text of 14 letters \<open>a\<close> in 3 rows with a tick on every row.\<close>

lemma draw_rows_14:
  "draw_rows 2 (fst (count_letters ''aaaaaaaaaaaaaa'')) 3 1 14 3 =
    ([''11|*                         '',
      '' 6|*                         '',
      '' 2|*                         ''], None)"
  by code_simp

lemma core_14:
  "count_letters ''aaaaaaaaaaaaaa'' = (fst (count_letters ''aaaaaaaaaaaaaa''), 14) \<and>
   core ''aaaaaaaaaaaaaa'' 3 1 =
    ([''11|*                         '',
      '' 6|*                         '',
      '' 2|*                         '',
      ''  +--------------------------'',
      ''  |abcdefghijklmnopqrstuvwxyz''], Exit 0)"
proof -
  have p: "snd (count_letters ''aaaaaaaaaaaaaa'') = 14"
    by code_simp
  have d: "digits 14 = Inr 2"
  proof -
    have "length (to_string 14) = 2" by code_simp
    with digits_value [of 14] show ?thesis by simp
  qed
  have f: "footer 2 = [''  +--------------------------'', ''  |abcdefghijklmnopqrstuvwxyz'']"
    by (simp add: footer_def alphabet_eq lower_case_def numeral_2_eq_2)
  obtain hist peak where c: "count_letters ''aaaaaaaaaaaaaa'' = (hist, peak)"
    by (cases "count_letters ''aaaaaaaaaaaaaa''")
  with p draw_rows_14 have "peak = 14"
    and "draw_rows 2 hist 3 1 14 3 =
    ([''11|*                         '',
      '' 6|*                         '',
      '' 2|*                         ''], None)"
    by simp_all
  then show ?thesis
    using f by (simp add: core_def c d)
qed

text \<open>
  Claim C5, as the code has it. For a text with a letter, on a row with a tick,
  the line of the row starts with the decimal string of
  \<open>static_cast<size_t>(0.5 * (rowFloor + rowCeil))\<close> after spaces up to the width
  that line 98 computes. The bounds, their sum and the product are doubles, and the
  cast is the floor of \<open>middle\<close>. Against the real number
  \<open>0.5 * (r / rows * peak + (r + 1) / rows * peak)\<close>: the label is the floor of it
  when it is no integer, and that integer or the one below it when it is one. The
  product of \<open>rows\<close> and \<open>peak\<close> is below \<open>2 ^ 49\<close>.
\<close>

theorem tick_label:
  assumes "count_letters input = (hist, peak)" and "0 < peak" and "rows * peak < 2 ^ 49"
    and "1 \<le> tickStride" and "r < rows" and "(rows - 1 - r) mod tickStride = 0"
  shows "\<exists>ls width v. digits peak = Inr width \<and>
    core input rows tickStride = (ls @ footer width, Exit 0) \<and> length ls = rows \<and>
    v = nat \<lfloor>middle r rows peak\<rfloor> \<and> length (to_string v) \<le> width \<and>
    take width (ls ! (rows - 1 - r)) =
      replicate (width - length (to_string v)) CHR '' '' @ to_string v \<and>
    nat \<lfloor>1 / 2 * (real r / real rows * real peak + real (r + 1) / real rows * real peak)\<rfloor> - 1
      \<le> v \<and>
    v \<le> nat \<lfloor>1 / 2 * (real r / real rows * real peak + real (r + 1) / real rows * real peak)\<rfloor> \<and>
    (1 / 2 * (real r / real rows * real peak + real (r + 1) / real rows * real peak) \<notin> \<int> \<longrightarrow>
      v = nat \<lfloor>1 / 2 * (real r / real rows * real peak + real (r + 1) / real rows * real peak)\<rfloor>)"
proof -
  define M where
    "M = 1 / 2 * (real r / real rows * real peak + real (r + 1) / real rows * real peak)"
  define v where "v = nat \<lfloor>middle r rows peak\<rfloor>"
  have rp: "0 < rows" using assms(5) by simp
  have "peak < 2 ^ 49" using factors_below(2) [OF rp assms(2,3)] .
  then have peak: "peak < 2 ^ 53" by simp
  from core_lines [OF assms(1,2) peak assms(4), of rows] obtain ls width
    where d: "digits peak = Inr width"
      and c: "core input rows tickStride = (ls @ footer width, Exit 0)" "length ls = rows"
      and l: "\<And>r. r < rows \<Longrightarrow> \<exists>t. tickStr width rows tickStride peak r = Inr t \<and>
        length t = width \<and> ls ! (rows - 1 - r) = t @ ''|'' @ bars hist (rowFloor r rows peak)"
    by blast
  have p64: "peak < 2 ^ 64" using peak by simp
  have "of_size_t peak < real (2 ^ 53)"
    using peak by (simp only: of_size_t_exact of_nat_less_iff)
  then have P: "of_size_t peak < 2 ^ 64" by simp
  note w = digits_width [OF d p64]
  from tickStr_label [OF assms(5,4,6) w P]
  have t: "tickStr width rows tickStride peak r =
      Inr (replicate (width - length (to_string v)) CHR '' '' @ to_string v)"
    and fit: "length (to_string v) \<le> width"
    by (simp_all add: v_def)
  from l [OF assms(5)] t fit
  have line: "take width (ls ! (rows - 1 - r)) =
      replicate (width - length (to_string v)) CHR '' '' @ to_string v"
    by auto
  have m0: "0 \<le> \<lfloor>middle r rows peak\<rfloor>"
    using middle_bounds(1) [OF assms(5), of peak] by simp
  have M0: "0 \<le> \<lfloor>M\<rfloor>" by (simp add: M_def)
  note mr = middle_vs_real [OF assms(5,2,3), folded M_def]
  have 1: "nat \<lfloor>M\<rfloor> - 1 \<le> v" using mr(1) m0 M0 unfolding v_def by linarith
  have 2: "v \<le> nat \<lfloor>M\<rfloor>" using mr(2) m0 M0 unfolding v_def by linarith
  have 3: "v = nat \<lfloor>M\<rfloor>" if "M \<notin> \<int>" using mr(3) [OF that] by (simp add: v_def)
  from d c line fit 1 2 3 show ?thesis
    unfolding M_def [symmetric] v_def [symmetric] by blast
qed

text \<open>
  The 14 letters \<open>a\<close> in 3 rows: the middle of the top row is \<open>35 / 3\<close>, and its
  label is 11.
\<close>

theorem tick_label_witness:
  "take 2 (fst (core ''aaaaaaaaaaaaaa'' 3 1) ! 0) = ''11'' \<and>
   nat \<lfloor>1 / 2 * (real 2 / real 3 * real 14 + real (2 + 1) / real 3 * real 14)\<rfloor> = 11"
proof -
  have a: "(3 - 1 - 2) mod 1 = (0::nat)" "(2::nat) < 3" "(3::nat) * 14 < 2 ^ 49" by simp_all
  from tick_label [OF conjunct1 [OF core_14] _ a(3) _ a(2) a(1)] core_14
  show ?thesis by simp
qed

text \<open>
  The claim as stated fails on the middle row of the same histogram: the real
  middle of the range from \<open>14 / 3\<close> to \<open>28 / 3\<close> is 7, the doubles are below
  the two bounds and their sum is below 14, and the run prints 6.
\<close>

theorem tick_label_counterexample:
  "fst (core ''aaaaaaaaaaaaaa'' 3 1) ! 1 = '' 6|*                         '' \<and>
   tickStr 2 3 1 14 1 = Inr '' 6'' \<and>
   \<lfloor>1 / 2 * (real 1 / real 3 * real 14 + real (1 + 1) / real 3 * real 14)\<rfloor> = 7"
proof -
  have "tickStr 2 3 1 14 1 = Inr '' 6''"
    by code_simp
  with core_14 show ?thesis by simp
qed

text \<open>
  Claim C6, as the code has it. For a text with a letter the run prints one line
  for each row, the line of row \<open>rows - 1\<close> first and the line of row 0 last. A
  line is the tick column, the axis character and 26 markers, one for each letter
  from \<open>a\<close> to \<open>z\<close> in this order; the marker of a letter is \<open>*\<close> when its count
  is above the \<open>rowFloor\<close> of the row and a space when it is not. \<open>rowFloor\<close> is a
  double, the rounded product of the rounded quotient \<open>r / rows\<close> and \<open>peak\<close>.
  Against the real number \<open>r / rows * peak\<close>: a count above it is above
  \<open>rowFloor\<close>, a count below it is below \<open>rowFloor\<close>, and for a count equal to it
  the rounding decides. The product of \<open>rows\<close> and \<open>peak\<close> is below \<open>2 ^ 51\<close>.
\<close>

theorem rows_top_to_bottom:
  assumes "count_letters input = (hist, peak)" and "0 < peak" and "1 \<le> rows"
    and "rows * peak < 2 ^ 51" and "1 \<le> tickStride"
  shows "\<exists>ls width. digits peak = Inr width \<and>
    core input rows tickStride = (ls @ footer width, Exit 0) \<and> length ls = rows \<and>
    (\<forall>i<rows. \<exists>t. length t = width \<and>
       ls ! i = t @ ''|'' @
         map (\<lambda>c. if rowFloor (rows - 1 - i) rows peak < real (bin hist c)
                  then CHR ''*'' else CHR '' '') lower_case) \<and>
    (\<forall>r<rows. rowFloor r rows peak = rnd (rnd (real r / real rows) * real peak) \<and>
       (\<forall>k. (r * peak < k * rows \<longrightarrow> rowFloor r rows peak < real k) \<and>
            (k * rows < r * peak \<longrightarrow> real k < rowFloor r rows peak)))"
proof -
  have rp: "0 < rows" using assms(3) by simp
  have "rows < 2 ^ 51" and "peak < 2 ^ 51"
    using factors_below [OF rp assms(2,4)] by simp_all
  then have rows: "rows < 2 ^ 53" and peak: "peak < 2 ^ 53" by simp_all
  from core_lines [OF assms(1,2) peak assms(5), of rows] obtain ls width
    where d: "digits peak = Inr width"
      and c: "core input rows tickStride = (ls @ footer width, Exit 0)" "length ls = rows"
      and l: "\<And>r. r < rows \<Longrightarrow> \<exists>t. tickStr width rows tickStride peak r = Inr t \<and>
        length t = width \<and> ls ! (rows - 1 - r) = t @ ''|'' @ bars hist (rowFloor r rows peak)"
    by blast
  have conv: "of_size_t (bin hist c) = real (bin hist c)" for c
    using bin_le_peak [OF assms(1), of c] peak by (intro of_size_t_exact) simp
  have 1: "\<exists>t. length t = width \<and>
       ls ! i = t @ ''|'' @
         map (\<lambda>c. if rowFloor (rows - 1 - i) rows peak < real (bin hist c)
                  then CHR ''*'' else CHR '' '') lower_case"
    if i: "i < rows" for i
  proof -
    from i have "rows - 1 - i < rows" and "rows - 1 - (rows - 1 - i) = i" by simp_all
    with l [of "rows - 1 - i"] show ?thesis
      by (auto simp: bars_def alphabet_eq conv)
  qed
  have 2: "rowFloor r rows peak = rnd (rnd (real r / real rows) * real peak) \<and>
       (\<forall>k. (r * peak < k * rows \<longrightarrow> rowFloor r rows peak < real k) \<and>
            (k * rows < r * peak \<longrightarrow> real k < rowFloor r rows peak))"
    if r: "r < rows" for r
  proof -
    from r rows have "r < 2 ^ 53" by simp
    then have "rowFloor r rows peak = rnd (rnd (real r / real rows) * real peak)"
      using rows peak by (simp add: rowFloor_def fmul_def fdiv_def of_size_t_exact)
    with rowFloor_vs_real [OF r assms(2,4)] show ?thesis by blast
  qed
  from d c 1 2 show ?thesis by blast
qed

text \<open>
  The text \<open>aabbbccccc\<close>, whose peak is 5, in 4 rows with a tick every 2 rows.
\<close>

theorem rows_top_to_bottom_witness:
  "core ''aabbbccccc'' 4 2 =
    ([''4|  *                       '',
      '' | **                       '',
      ''1|***                       '',
      '' |***                       '',
      '' +--------------------------'',
      '' |abcdefghijklmnopqrstuvwxyz''], Exit 0)"
proof -
  have p: "snd (count_letters ''aabbbccccc'') = 5"
    by code_simp
  then have c: "count_letters ''aabbbccccc'' = (fst (count_letters ''aabbbccccc''), 5)"
    by (cases "count_letters ''aabbbccccc''") simp
  have a: "(0::nat) < 5" "(1::nat) \<le> 4" "(4::nat) * 5 < 2 ^ 51" "(1::nat) \<le> 2" by simp_all
  from rows_top_to_bottom [OF c a] core_example show ?thesis by simp
qed

text \<open>
  The claim as stated, with the real number \<open>r / rows * peak\<close> for \<open>rowFloor\<close>,
  fails on a text of 23 letters \<open>a\<close> and 13 letters \<open>b\<close> in 23 rows. In row 13
  the real number is 13, which the count 13 of \<open>b\<close> is not above; the double
  \<open>13 / 23 * 23\<close> is below 13, and the run prints the marker of \<open>b\<close> filled.
\<close>

theorem rows_top_to_bottom_counterexample:
  "snd (count_letters ''aaaaaaaaaaaaaaaaaaaaaaabbbbbbbbbbbbb'') = 23 \<and>
   bin (fst (count_letters ''aaaaaaaaaaaaaaaaaaaaaaabbbbbbbbbbbbb'')) CHR ''b'' = 13 \<and>
   row 2 (fst (count_letters ''aaaaaaaaaaaaaaaaaaaaaaabbbbbbbbbbbbb'')) 23 3 23 13 =
     Inr (''13|**                        '') \<and>
   \<not> real 13 / real 23 * real 23 < real 13"
proof -
  have "snd (count_letters ''aaaaaaaaaaaaaaaaaaaaaaabbbbbbbbbbbbb'') = 23"
    by code_simp
  moreover have "bin (fst (count_letters ''aaaaaaaaaaaaaaaaaaaaaaabbbbbbbbbbbbb'')) CHR ''b'' = 13"
    by code_simp
  moreover have "row 2 (fst (count_letters ''aaaaaaaaaaaaaaaaaaaaaaabbbbbbbbbbbbb'')) 23 3 23 13 =
     Inr (''13|**                        '')"
    by code_simp
  ultimately show ?thesis by simp
qed

text \<open>
  Claim C7 fails on the code with claim C1: for a text without a letter line 98 is
  undefined before the first row, and the run prints no row at all. (Lines 103
  and 120 themselves give a \<open>rowFloor\<close> of 0 and 26 spaces for a peak of 0, lemma
  \<open>blank_markers_for_peak_0\<close>.)
\<close>

theorem no_rows_for_peak_0:
  "snd (count_letters ''123 456'') = 0 \<and>
   core ''123 456'' 10 3 = ([], Abort Undefined_behaviour)"
proof -
  have p: "snd (count_letters ''123 456'') = 0"
    by code_simp
  with core_peak_0 [OF p, of 10 3] show ?thesis by simp
qed

end
